theory Spec2Isabelle
  imports Main "HOL-Library.AList" "HOL-Library.Multiset"
begin

section \<open>Data model of the Gerrit polling client\<close>

text \<open>
  The client of \<^verbatim>\<open>prow/gerrit/client/client.go\<close>. Timestamps (\<^verbatim>\<open>time.Time\<close>, wrapped
  by \<^verbatim>\<open>gerrit.Timestamp\<close>) are instants on a line, modelled as integers; \<^verbatim>\<open>t.After(u)\<close>
  is the strict order and \<^verbatim>\<open>t.Before(u)\<close> its converse. Logging and the metrics counters
  change no value the functions return and are left out.
\<close>

type_synonym Time = int

abbreviation After :: "Time \<Rightarrow> Time \<Rightarrow> bool" where
  "After t u \<equiv> u < t"

abbreviation Before :: "Time \<Rightarrow> Time \<Rightarrow> bool" where
  "Before t u \<equiv> t < u"

definition Merged :: string where
  "Merged = ''MERGED''"

definition New :: string where
  "New = ''NEW''"

text \<open>
  Modelled from the spec: the types \<^verbatim>\<open>ChangeInfo\<close>, \<^verbatim>\<open>RevisionInfo\<close>, \<^verbatim>\<open>ChangeMessageInfo\<close>,
  \<^verbatim>\<open>CommentInfo\<close> and \<^verbatim>\<open>QueryChangeOptions\<close> of the vendored library \<^verbatim>\<open>go-gerrit\<close> and
  \<^verbatim>\<open>GerritQueryFilter\<close> of \<^verbatim>\<open>prow/config\<close>, whose declarations are not among the sources.
  They have the fields that the data model of the spec names and the client reads or
  writes. A pointer field (\<^verbatim>\<open>*Timestamp\<close>) is an option: the client dereferences
  \<^verbatim>\<open>change.Submitted\<close> and \<^verbatim>\<open>c.Updated\<close> without a check, and \<open>None\<close> is the nil pointer.
  An account is identified by its name.
\<close>

type_synonym AccountInfo = string

record RevisionInfo =
  Revision_Number :: int
  Revision_Created :: Time

record ChangeMessageInfo =
  Message_Author :: AccountInfo
  Message_Date :: Time
  Message_Message :: string
  Message_RevisionNumber :: int

record CommentInfo =
  Comment_PatchSet :: int
  Comment_Message :: string
  Comment_Updated :: "Time option"
  Comment_Author :: AccountInfo

record ChangeInfo =
  ID :: string
  Number :: int
  Status :: string
  Updated :: Time
  Submitted :: "Time option"
  CurrentRevision :: string
  Revisions :: "string \<rightharpoonup> RevisionInfo"
  Messages :: "ChangeMessageInfo list"

record QueryChangeOptions =
  Query :: "string list"
  AdditionalFields :: "string list"
  Limit :: int
  Start :: int

record GerritQueryFilter =
  Branches :: "string list"
  ExcludedBranches :: "string list"

text \<open>
  Errors are values. \<open>GatewayError\<close> is an error of the library or the transport, opaque
  to the client; the other constructors are the errors the client builds itself with
  \<^verbatim>\<open>fmt.Errorf\<close> and \<^verbatim>\<open>utilerrors.NewAggregate\<close>.
\<close>

datatype error =
    GatewayError string
  | ResponseBody error string
  | InstanceNotFound string
  | ProjectNotRegistered string string
  | QueryFailed string string error
  | Aggregate "error list"

text \<open>The nil dereferences of the source, each a panic of its own.\<close>

datatype panic = NilSubmitted | NilComments | NilCommentUpdated | NilAuthentication

text \<open>
  The capability \<^verbatim>\<open>gerritChange\<close> of one instance, with the two operations the poller
  calls. A failed \<^verbatim>\<open>QueryChanges\<close> comes with the body of the HTTP response when there is
  one; a successful one with a pointer to the page, which may be nil. A successful
  \<^verbatim>\<open>ListChangeComments\<close> comes with a pointer to the map of the comments, which may be nil
  as well: \<open>None\<close> is the nil pointer in both. A call the poller makes is recorded as a
  \<open>call\<close>.
\<close>

record gerritChange =
  QueryChanges :: "QueryChangeOptions \<Rightarrow> (error \<times> string option) + ChangeInfo list option"
  ListChangeComments :: "string \<Rightarrow> error + (string \<rightharpoonup> CommentInfo list) option"

datatype call = QueryChangesCall QueryChangeOptions | ListChangeCommentsCall string

section \<open>Helpers\<close>

definition parseStamp :: "Time \<Rightarrow> Time" where
  "parseStamp v = v"

text \<open>\<^verbatim>\<open>strings.Join\<close>.\<close>

fun Join :: "string list \<Rightarrow> string \<Rightarrow> string" where
  "Join [] sep = []"
| "Join [x] sep = x"
| "Join (x # y # ys) sep = x @ sep @ Join (y # ys) sep"

definition responseBodyError :: "error \<Rightarrow> string option \<Rightarrow> error" where
  "responseBodyError err resp =
     (case resp of None \<Rightarrow> err | Some b \<Rightarrow> ResponseBody err b)"

definition queryStringsFromQueryFilter :: "GerritQueryFilter option \<Rightarrow> string list" where
  "queryStringsFromQueryFilter filters =
     (case filters of
        None \<Rightarrow> []
      | Some f \<Rightarrow>
          (let branchFilter = map (\<lambda>br. ''branch:'' @ br) (Branches f);
               res = (if length branchFilter > 0
                      then [''('' @ Join branchFilter ''+OR+'' @ '')''] else []);
               excludedBranchFilter = map (\<lambda>br. ''-branch:'' @ br) (ExcludedBranches f)
           in if length excludedBranchFilter > 0
              then res @ [''('' @ Join excludedBranchFilter ''+AND+'' @ '')'']
              else res))"

section \<open>Patchset-level comments\<close>

text \<open>
  The loop of \<^verbatim>\<open>injectPatchsetMessages\<close> over the comments: each comment is appended as
  a message, \<^verbatim>\<open>*c.Updated\<close> panics on a comment without a timestamp.
\<close>

fun injectPatchsetMessages_comments ::
  "CommentInfo list \<Rightarrow> ChangeMessageInfo list \<Rightarrow> bool \<Rightarrow> panic + (ChangeMessageInfo list \<times> bool)"
where
  "injectPatchsetMessages_comments [] messages changed = Inr (messages, changed)"
| "injectPatchsetMessages_comments (c # comments) messages changed =
     (case Comment_Updated c of
        None \<Rightarrow> Inl NilCommentUpdated
      | Some u \<Rightarrow>
          injectPatchsetMessages_comments comments
            (messages @ [\<lparr>Message_Author = Comment_Author c, Message_Date = u,
                          Message_Message = Comment_Message c,
                          Message_RevisionNumber = Comment_PatchSet c\<rparr>])
            True)"

text \<open>
  \<^verbatim>\<open>sort.SliceStable\<close> with the order \<^verbatim>\<open>Messages[i].Date.Before(Messages[j].Date)\<close> is the
  stable sort on the date, \<^const>\<open>sort_key\<close>. \<^verbatim>\<open>outer := *out\<close> panics when the fetch
  returns a nil pointer and no error. The function returns the change as the call leaves
  it, with the error it returns, or the panic.
\<close>

definition injectPatchsetMessages ::
  "gerritChange \<Rightarrow> ChangeInfo \<Rightarrow> panic + (ChangeInfo \<times> error option)"
where
  "injectPatchsetMessages cs change =
     (case ListChangeComments cs (ID change) of
        Inl err \<Rightarrow> Inr (change, Some err)
      | Inr None \<Rightarrow> Inl NilComments
      | Inr (Some outer) \<Rightarrow>
          (case outer ''/PATCHSET_LEVEL'' of
             None \<Rightarrow> Inr (change, None)
           | Some comments \<Rightarrow>
               (case injectPatchsetMessages_comments comments (Messages change) False of
                  Inl p \<Rightarrow> Inl p
                | Inr (messages, changed) \<Rightarrow>
                    Inr (change\<lparr>Messages :=
                           (if changed then sort_key Message_Date messages else messages)\<rparr>,
                         None))))"

section \<open>The change poller\<close>

text \<open>
  The scan of the messages of a change for one of the current revision that is newer
  than the watermark (the loop that sets \<^verbatim>\<open>newMessages\<close> and breaks).
\<close>

fun newMessages :: "Time \<Rightarrow> int \<Rightarrow> ChangeMessageInfo list \<Rightarrow> bool" where
  "newMessages lastUpdate n [] = False"
| "newMessages lastUpdate n (message # changeMessages) =
     (if Message_RevisionNumber message = n \<and> After (parseStamp (Message_Date message)) lastUpdate
      then True
      else newMessages lastUpdate n changeMessages)"

text \<open>
  The body of the loop over the changes of a page, for one change and the changes pending
  so far: \<open>Continue\<close> goes on with the next change, \<open>Return\<close> is \<^verbatim>\<open>return pending, nil\<close>.
  With the result come the gateway calls made.
\<close>

datatype step = Continue "ChangeInfo list" | Return "ChangeInfo list" | Panic panic

definition QueryChangesForProject_change ::
  "gerritChange \<Rightarrow> Time \<Rightarrow> ChangeInfo \<Rightarrow> ChangeInfo list \<Rightarrow> step \<times> call list"
where
  "QueryChangesForProject_change cs lastUpdate change pending =
     (let updated = parseStamp (Updated change) in
      if \<not> After updated lastUpdate then (Return pending, [])
      else if Status change = Merged then
        (case Submitted change of
           None \<Rightarrow> (Panic NilSubmitted, [])
         | Some s \<Rightarrow>
             (let submitted = parseStamp s in
              if \<not> After submitted lastUpdate then (Continue pending, [])
              else (Continue (pending @ [change]), [])))
      else if Status change = New then
        (case Revisions change (CurrentRevision change) of
           None \<Rightarrow> (Continue pending, [])
         | Some rev' \<Rightarrow>
             (let created = parseStamp (Revision_Created rev') in
              case injectPatchsetMessages cs change of
                Inl p \<Rightarrow> (Panic p, [ListChangeCommentsCall (ID change)])
              | Inr (change', err) \<Rightarrow>
                  if \<not> newMessages lastUpdate (Revision_Number rev') (Messages change')
                     \<and> \<not> After created lastUpdate
                  then (Continue pending, [ListChangeCommentsCall (ID change)])
                  else (Continue (pending @ [change']), [ListChangeCommentsCall (ID change)])))
      else (Continue pending, []))"

fun QueryChangesForProject_page ::
  "gerritChange \<Rightarrow> Time \<Rightarrow> ChangeInfo list \<Rightarrow> ChangeInfo list \<Rightarrow> step \<times> call list"
where
  "QueryChangesForProject_page cs lastUpdate [] pending = (Continue pending, [])"
| "QueryChangesForProject_page cs lastUpdate (change # changes) pending =
     (case QueryChangesForProject_change cs lastUpdate change pending of
        (Continue pending', calls) \<Rightarrow>
          (case QueryChangesForProject_page cs lastUpdate changes pending' of
             (r, calls') \<Rightarrow> (r, calls @ calls'))
      | (Return pending', calls) \<Rightarrow> (Return pending', calls)
      | (Panic p, calls) \<Rightarrow> (Panic p, calls))"

text \<open>
  The paging loop. It ends when the gateway fails, returns no page or an empty one, or a
  page holds a change not newer than the watermark; a gateway that goes on returning
  pages of newer changes keeps it running, so the loop has fuel, one unit for a page, and
  \<open>None\<close> is the loop still running when the fuel is spent.
\<close>

datatype 'a outcome = Returned 'a | Failed error | Panicked panic

fun QueryChangesForProject_loop ::
  "nat \<Rightarrow> gerritChange \<Rightarrow> Time \<Rightarrow> int \<Rightarrow> QueryChangeOptions \<Rightarrow> int \<Rightarrow> ChangeInfo list
   \<Rightarrow> (ChangeInfo list outcome \<times> call list) option"
where
  "QueryChangesForProject_loop 0 cs lastUpdate rateLimit opt start pending = None"
| "QueryChangesForProject_loop (Suc fuel) cs lastUpdate rateLimit opt start pending =
     (let opt' = opt\<lparr>Limit := rateLimit, Start := start\<rparr> in
      case QueryChanges cs opt' of
        Inl (err, resp) \<Rightarrow> Some (Failed (responseBodyError err resp), [QueryChangesCall opt'])
      | Inr None \<Rightarrow> Some (Returned pending, [QueryChangesCall opt'])
      | Inr (Some changes) \<Rightarrow>
          if length changes = 0 then Some (Returned pending, [QueryChangesCall opt'])
          else
            (case QueryChangesForProject_page cs lastUpdate changes pending of
               (Continue pending', calls) \<Rightarrow>
                 (case QueryChangesForProject_loop fuel cs lastUpdate rateLimit opt'
                         (start + int (length changes)) pending' of
                    None \<Rightarrow> None
                  | Some (r, calls') \<Rightarrow> Some (r, QueryChangesCall opt' # calls @ calls'))
             | (Return pending', calls) \<Rightarrow> Some (Returned pending', QueryChangesCall opt' # calls)
             | (Panic p, calls) \<Rightarrow> Some (Panicked p, QueryChangesCall opt' # calls)))"

text \<open>
  \<^verbatim>\<open>gerritInstanceHandler.QueryChangesForProject\<close>: the query is the filters and
  \<^verbatim>\<open>project:<name>\<close> joined by \<^verbatim>\<open>+\<close>, the first page starts at 0 and nothing is pending.
\<close>

definition QueryChangesForProject_opt :: "string \<Rightarrow> string list \<Rightarrow> QueryChangeOptions" where
  "QueryChangesForProject_opt project additionalFilters =
     \<lparr>Query = [Join (additionalFilters @ [''project:'' @ project]) ''+''],
      AdditionalFields = [''CURRENT_REVISION'', ''CURRENT_COMMIT'', ''CURRENT_FILES'', ''MESSAGES''],
      Limit = 0, Start = 0\<rparr>"

definition handler_QueryChangesForProject ::
  "nat \<Rightarrow> gerritChange \<Rightarrow> string \<Rightarrow> Time \<Rightarrow> int \<Rightarrow> string list
   \<Rightarrow> (ChangeInfo list outcome \<times> call list) option"
where
  "handler_QueryChangesForProject fuel cs project lastUpdate rateLimit additionalFilters =
     QueryChangesForProject_loop fuel cs lastUpdate rateLimit
       (QueryChangesForProject_opt project additionalFilters) 0 []"

section \<open>Instance handlers and the client\<close>

text \<open>
  The authentication service of a gateway is what it has been given: the
  \<^verbatim>\<open>SetCookieAuth\<close> calls it received, oldest first. The account and project services are
  not called by the operations below and stay abstract.
\<close>

type_synonym gerritAuthentication = "(string \<times> string) list"

definition SetCookieAuth :: "string \<Rightarrow> string \<Rightarrow> gerritAuthentication \<Rightarrow> gerritAuthentication" where
  "SetCookieAuth name v a = a @ [(name, v)]"

text \<open>
  A Go map that the code iterates is an association list without repeated keys: the
  order of the list is the order the iteration takes, which Go leaves open.
\<close>

record ('a, 'p) gerritInstanceHandler =
  instance_name :: string
  projects :: "(string \<times> GerritQueryFilter option) list"
  authService :: gerritAuthentication
  accountService :: 'a
  changeService :: gerritChange
  projectService :: 'p

text \<open>
  Modelled from the spec: what \<^verbatim>\<open>gerrit.NewClient\<close> of the vendored library returns, the
  four services of a new gateway. The function itself is a parameter of \<^verbatim>\<open>UpdateClients\<close>.
\<close>

record ('a, 'p) gerritClient =
  Authentication :: gerritAuthentication
  Accounts :: 'a
  Changes :: gerritChange
  Projects :: 'p

text \<open>
  The client holds pointers to its handlers, and \<^verbatim>\<open>UpdateClients\<close> writes through them:
  the handler objects live in a store, a pointer is an index into it, and a new object is
  allocated at the end. \<open>authentication\<close> is the credential source function, given by
  what a call of it returns now (the token and the error), \<open>None\<close> when no source has
  been configured. The account cache and the lock are not modelled: the operations below
  do not read the cache, and each runs under the lock from start to end.
\<close>

record ('a, 'p) Client =
  store :: "('a, 'p) gerritInstanceHandler list"
  handlers :: "(string \<times> nat) list"
  authentication :: "(string \<times> error option) option"
  previousToken :: string

type_synonym LastSyncState = "string \<rightharpoonup> (string \<rightharpoonup> Time)"

subsection \<open>Credential rotation\<close>

fun authenticateOnce_handlers ::
  "(string \<times> nat) list \<Rightarrow> string \<Rightarrow> ('a, 'p) gerritInstanceHandler list
   \<Rightarrow> ('a, 'p) gerritInstanceHandler list"
where
  "authenticateOnce_handlers [] current st = st"
| "authenticateOnce_handlers ((inst, a) # hs) current st =
     authenticateOnce_handlers hs current
       (st[a := (st ! a)\<lparr>authService := SetCookieAuth ''o'' current (authService (st ! a))\<rparr>])"

text \<open>
  \<^verbatim>\<open>authenticateOnce\<close>: the error of the source is logged and nothing else is done with
  it; the token that came with it is then compared and applied like any other.
\<close>

definition authenticateOnce :: "('a, 'p) Client \<Rightarrow> panic + ('a, 'p) Client" where
  "authenticateOnce c =
     (case authentication c of
        None \<Rightarrow> Inl NilAuthentication
      | Some (current, err) \<Rightarrow>
          if current = previousToken c then Inr c
          else Inr (c\<lparr>previousToken := current,
                      store := authenticateOnce_handlers (handlers c) current (store c)\<rparr>))"

subsection \<open>Reconfiguration\<close>

text \<open>
  Modelled from the spec: \<^verbatim>\<open>utilerrors.NewAggregate\<close> of the vendored \<^verbatim>\<open>apimachinery\<close>, which
  is not among the sources. It returns the aggregate of the errors, and no error for an
  empty list.
\<close>

definition NewAggregate :: "error list \<Rightarrow> error option" where
  "NewAggregate errs = (if errs = [] then None else Some (Aggregate errs))"

text \<open>\<^verbatim>\<open>instances[instance]\<close>: the nil map for a missing key.\<close>

definition instance_projects ::
  "(string \<times> (string \<times> GerritQueryFilter option) list) list \<Rightarrow> string
   \<Rightarrow> (string \<times> GerritQueryFilter option) list"
where
  "instance_projects instances inst = (case map_of instances inst of None \<Rightarrow> [] | Some ps \<Rightarrow> ps)"

text \<open>
  The loop of \<^verbatim>\<open>UpdateClients\<close> over the desired instances. \<open>old\<close> is \<^verbatim>\<open>c.handlers\<close>,
  which the loop only reads; \<^verbatim>\<open>gerrit.NewClient\<close> is a parameter.
\<close>

fun UpdateClients_instances ::
  "(string \<Rightarrow> error + ('a, 'p) gerritClient) \<Rightarrow> (string \<times> nat) list
   \<Rightarrow> (string \<times> (string \<times> GerritQueryFilter option) list) list
   \<Rightarrow> (string \<times> (string \<times> GerritQueryFilter option) list) list
   \<Rightarrow> (string \<times> nat) list \<Rightarrow> error list \<Rightarrow> ('a, 'p) gerritInstanceHandler list
   \<Rightarrow> (string \<times> nat) list \<times> error list \<times> ('a, 'p) gerritInstanceHandler list"
where
  "UpdateClients_instances NewClient old instances [] newHandlers errs st = (newHandlers, errs, st)"
| "UpdateClients_instances NewClient old instances ((inst, ps) # rest) newHandlers errs st =
     (case map_of old inst of
        Some handler \<Rightarrow>
          UpdateClients_instances NewClient old instances rest
            (AList.update inst handler newHandlers) errs
            (st[handler := (st ! handler)\<lparr>projects := instance_projects instances inst\<rparr>])
      | None \<Rightarrow>
          (case NewClient inst of
             Inl err \<Rightarrow>
               UpdateClients_instances NewClient old instances rest newHandlers (errs @ [err]) st
           | Inr gc \<Rightarrow>
               UpdateClients_instances NewClient old instances rest
                 (AList.update inst (length st) newHandlers) errs
                 (st @ [\<lparr>instance_name = inst,
                         projects = instance_projects instances inst,
                         authService = Authentication gc,
                         accountService = Accounts gc,
                         changeService = Changes gc,
                         projectService = Projects gc\<rparr>])))"

definition UpdateClients ::
  "(string \<Rightarrow> error + ('a, 'p) gerritClient) \<Rightarrow> ('a, 'p) Client
   \<Rightarrow> (string \<times> (string \<times> GerritQueryFilter option) list) list
   \<Rightarrow> ('a, 'p) Client \<times> error option"
where
  "UpdateClients NewClient c instances =
     (case UpdateClients_instances NewClient (handlers c) instances instances [] [] (store c) of
        (newHandlers, errs, st) \<Rightarrow>
          (c\<lparr>handlers := newHandlers, store := st\<rparr>, NewAggregate errs))"

subsection \<open>Polling\<close>

text \<open>
  \<^verbatim>\<open>queryAllChanges\<close>: \<open>timeNow\<close> is the reading of the clock at the start. A project
  whose poll fails is skipped; a panic ends the run.
\<close>

fun queryAllChanges_projects ::
  "nat \<Rightarrow> ('a, 'p) gerritInstanceHandler \<Rightarrow> (string \<rightharpoonup> Time) \<Rightarrow> int \<Rightarrow> Time
   \<Rightarrow> (string \<times> GerritQueryFilter option) list \<Rightarrow> ChangeInfo list
   \<Rightarrow> (panic + ChangeInfo list) option"
where
  "queryAllChanges_projects fuel h lastState rateLimit timeNow [] result = Some (Inr result)"
| "queryAllChanges_projects fuel h lastState rateLimit timeNow ((project, filters) # ps) result =
     (let lastUpdate = (case lastState project of None \<Rightarrow> timeNow | Some t \<Rightarrow> t) in
      case handler_QueryChangesForProject fuel (changeService h) project lastUpdate rateLimit
             (queryStringsFromQueryFilter filters) of
        None \<Rightarrow> None
      | Some (Returned changes, calls) \<Rightarrow>
          queryAllChanges_projects fuel h lastState rateLimit timeNow ps (result @ changes)
      | Some (Failed err, calls) \<Rightarrow>
          queryAllChanges_projects fuel h lastState rateLimit timeNow ps result
      | Some (Panicked p, calls) \<Rightarrow> Some (Inl p))"

definition queryAllChanges ::
  "nat \<Rightarrow> ('a, 'p) gerritInstanceHandler \<Rightarrow> (string \<rightharpoonup> Time) \<Rightarrow> int \<Rightarrow> Time
   \<Rightarrow> (panic + ChangeInfo list) option"
where
  "queryAllChanges fuel h lastState rateLimit timeNow =
     queryAllChanges_projects fuel h lastState rateLimit timeNow (projects h) []"

text \<open>\<^verbatim>\<open>lastState[instance]\<close>: the nil map, where every lookup misses, for a missing key.\<close>

definition lastStateForInstance :: "LastSyncState \<Rightarrow> string \<Rightarrow> (string \<rightharpoonup> Time)" where
  "lastStateForInstance lastState inst =
     (case lastState inst of None \<Rightarrow> Map.empty | Some m \<Rightarrow> m)"

definition Client_QueryChangesForInstance ::
  "nat \<Rightarrow> ('a, 'p) Client \<Rightarrow> string \<Rightarrow> LastSyncState \<Rightarrow> int \<Rightarrow> Time
   \<Rightarrow> (panic + ChangeInfo list) option"
where
  "Client_QueryChangesForInstance fuel c inst lastState rateLimit timeNow =
     (case map_of (handlers c) inst of
        None \<Rightarrow> Some (Inr [])
      | Some h \<Rightarrow>
          queryAllChanges fuel (store c ! h) (lastStateForInstance lastState inst) rateLimit timeNow)"

text \<open>
  \<^verbatim>\<open>Client.QueryChangesForProject\<close>. Where the source returns an error, the list beside it
  is empty, and \<open>Failed\<close> stands for the pair.
\<close>

definition Client_QueryChangesForProject ::
  "nat \<Rightarrow> ('a, 'p) Client \<Rightarrow> string \<Rightarrow> string \<Rightarrow> Time \<Rightarrow> int \<Rightarrow> string list
   \<Rightarrow> ChangeInfo list outcome option"
where
  "Client_QueryChangesForProject fuel c inst project lastUpdate rateLimit additionalFilters =
     (case map_of (handlers c) inst of
        None \<Rightarrow> Some (Failed (InstanceNotFound inst))
      | Some h \<Rightarrow>
          (case map_of (projects (store c ! h)) project of
             None \<Rightarrow> Some (Failed (ProjectNotRegistered project inst))
           | Some queryFilters \<Rightarrow>
               (case handler_QueryChangesForProject fuel (changeService (store c ! h)) project
                       lastUpdate rateLimit
                       (queryStringsFromQueryFilter queryFilters @ additionalFilters) of
                  None \<Rightarrow> None
                | Some (Returned changes, calls) \<Rightarrow> Some (Returned changes)
                | Some (Failed err, calls) \<Rightarrow> Some (Failed (QueryFailed project inst err))
                | Some (Panicked p, calls) \<Rightarrow> Some (Panicked p))))"

section \<open>Notions used in the statements\<close>

text \<open>
  \<open>syntheticMessage c m\<close>: the message \<open>m\<close> is the one made from the patchset-level
  comment \<open>c\<close>, with its author, timestamp, text and revision number.
\<close>

definition syntheticMessage :: "CommentInfo \<Rightarrow> ChangeMessageInfo \<Rightarrow> bool" where
  "syntheticMessage c m \<longleftrightarrow>
     Message_Author m = Comment_Author c \<and> Comment_Updated c = Some (Message_Date m) \<and>
     Message_Message m = Comment_Message c \<and> Message_RevisionNumber m = Comment_PatchSet c"

text \<open>
  \<open>actionable lastUpdate x\<close>: what the poller requires of a change it returns. The change
  was updated after the watermark and either is merged and was submitted after the
  watermark, or is open with its current revision known and a message of that revision
  or the revision itself newer than the watermark.
\<close>

definition actionable :: "Time \<Rightarrow> ChangeInfo \<Rightarrow> bool" where
  "actionable lastUpdate x \<longleftrightarrow>
     After (Updated x) lastUpdate \<and>
     (if Status x = Merged
      then (case Submitted x of None \<Rightarrow> False | Some s \<Rightarrow> After s lastUpdate)
      else Status x = New \<and>
        (case Revisions x (CurrentRevision x) of
           None \<Rightarrow> False
         | Some r \<Rightarrow> newMessages lastUpdate (Revision_Number r) (Messages x)
                      \<or> After (Revision_Created r) lastUpdate))"

text \<open>
  \<open>project_poll fuel h rateLimit lastUpdate (project, filters) part\<close>: \<open>part\<close> is what the
  poll of the project with the watermark \<open>lastUpdate\<close> adds to the result of
  \<^verbatim>\<open>queryAllChanges\<close>: the changes the poll returns, or nothing when it fails.
\<close>

definition project_poll ::
  "nat \<Rightarrow> ('a, 'p) gerritInstanceHandler \<Rightarrow> int \<Rightarrow> Time \<Rightarrow> string \<times> GerritQueryFilter option
   \<Rightarrow> ChangeInfo list \<Rightarrow> bool"
where
  "project_poll fuel h rateLimit lastUpdate pf part \<longleftrightarrow>
     (case handler_QueryChangesForProject fuel (changeService h) (fst pf) lastUpdate rateLimit
             (queryStringsFromQueryFilter (snd pf)) of
        None \<Rightarrow> False
      | Some (Returned changes, calls) \<Rightarrow> part = changes
      | Some (Failed err, calls) \<Rightarrow> part = []
      | Some (Panicked p, calls) \<Rightarrow> False)"

text \<open>
  The pointers of a client are in order when they point into the store and no two
  instances share a handler object. A client without handlers is so, and
  \<^verbatim>\<open>UpdateClients\<close>, which gives every new instance an object of its own, keeps it so.
\<close>

definition wf_Client :: "('a, 'p) Client \<Rightarrow> bool" where
  "wf_Client c \<longleftrightarrow>
     distinct (map snd (handlers c)) \<and> (\<forall>a\<in>snd ` set (handlers c). a < length (store c))"

text \<open>
  \<open>poll_ends cs lastUpdate n\<close>: what the polls of a gateway with the watermark
  \<open>lastUpdate\<close> need to end without a panic. Every merged change it returns that was
  updated after the watermark carries a submission time, a comment fetch that succeeds
  returns a map and not the nil pointer, every patchset-level comment in it carries a
  timestamp, and the pages are empty from the offset \<open>n\<close> on.
\<close>

definition poll_ends :: "gerritChange \<Rightarrow> Time \<Rightarrow> nat \<Rightarrow> bool" where
  "poll_ends cs lastUpdate n \<longleftrightarrow>
     (\<forall>opt changes. QueryChanges cs opt = Inr (Some changes) \<longrightarrow>
        (\<forall>c\<in>set changes. Status c = Merged \<and> After (Updated c) lastUpdate
           \<longrightarrow> Submitted c \<noteq> None))
     \<and> (\<forall>i. ListChangeComments cs i \<noteq> Inr None)
     \<and> (\<forall>i outer comments. ListChangeComments cs i = Inr (Some outer) \<longrightarrow>
          outer ''/PATCHSET_LEVEL'' = Some comments \<longrightarrow>
          (\<forall>x\<in>set comments. Comment_Updated x \<noteq> None))
     \<and> (\<forall>opt changes. int n \<le> Start opt \<longrightarrow> QueryChanges cs opt = Inr (Some changes)
          \<longrightarrow> changes = [])"


subsection \<open>A small gateway, for concrete runs\<close>

text \<open>
  A change with one revision \<open>r1\<close>, numbered 1 and created at 5, and one message of the
  uploader at 10; two patchset-level comments on revision 1, the later one first.
\<close>

definition example_native :: ChangeMessageInfo where
  "example_native = \<lparr>Message_Author = ''alice'', Message_Date = 10,
                      Message_Message = ''Uploaded patch set 1.'', Message_RevisionNumber = 1\<rparr>"

definition example_change :: "string \<Rightarrow> string \<Rightarrow> Time \<Rightarrow> Time option \<Rightarrow> ChangeInfo" where
  "example_change i s u sub =
     \<lparr>ID = i, Number = 1, Status = s, Updated = u, Submitted = sub, CurrentRevision = ''r1'',
      Revisions = [''r1'' \<mapsto> \<lparr>Revision_Number = 1, Revision_Created = 5\<rparr>],
      Messages = [example_native]\<rparr>"

definition example_later :: CommentInfo where
  "example_later = \<lparr>Comment_PatchSet = 1, Comment_Message = ''second thoughts'',
                     Comment_Updated = Some 11, Comment_Author = ''bob''\<rparr>"

definition example_earlier :: CommentInfo where
  "example_earlier = \<lparr>Comment_PatchSet = 1, Comment_Message = ''looks good'',
                       Comment_Updated = Some 9, Comment_Author = ''bob''\<rparr>"

definition example_comments :: "string \<Rightarrow> error + (string \<rightharpoonup> CommentInfo list) option" where
  "example_comments i = Inr (Some [''/PATCHSET_LEVEL'' \<mapsto> [example_later, example_earlier]])"

text \<open>
  One page of four changes, newest first: \<open>a\<close> merged and submitted at 15, \<open>b\<close> and \<open>c\<close>
  open, \<open>d\<close> merged without a submission time. The gateway serves this page at offset 0
  and fails at every other offset.
\<close>

definition example_page :: "ChangeInfo list" where
  "example_page =
     [example_change ''a'' Merged 20 (Some 15), example_change ''b'' New 19 None,
      example_change ''c'' New 10 None, example_change ''d'' Merged 30 None]"

definition example_gateway :: gerritChange where
  "example_gateway =
     \<lparr>QueryChanges = (\<lambda>opt. if Start opt = 0 then Inr (Some example_page)
                             else Inl (GatewayError ''unexpected request'', None)),
      ListChangeComments = example_comments\<rparr>"

text \<open>A gateway with one open change, an empty second page, and no comment service.\<close>

definition example_failing_gateway :: gerritChange where
  "example_failing_gateway =
     \<lparr>QueryChanges = (\<lambda>opt. if Start opt = 0
                             then Inr (Some [example_change ''b'' New 19 None])
                             else Inr (Some [])),
      ListChangeComments = (\<lambda>i. Inl (GatewayError ''503''))\<rparr>"

text \<open>The change \<open>b\<close> of the example page after the two comments have been merged.\<close>

definition example_merged :: ChangeInfo where
  "example_merged =
     (example_change ''b'' New 19 None)
       \<lparr>Messages :=
          [\<lparr>Message_Author = ''bob'', Message_Date = 9, Message_Message = ''looks good'',
             Message_RevisionNumber = 1\<rparr>,
           example_native,
           \<lparr>Message_Author = ''bob'', Message_Date = 11, Message_Message = ''second thoughts'',
             Message_RevisionNumber = 1\<rparr>]\<rparr>"


definition example_finite_gateway :: gerritChange where
  "example_finite_gateway =
     \<lparr>QueryChanges = (\<lambda>opt. if Start opt = 0
                             then Inr (Some [example_change ''a'' Merged 20 (Some 15),
                                             example_change ''b'' New 19 None])
                             else Inr (Some [])),
      ListChangeComments = example_comments\<rparr>"


definition example_endless_gateway :: gerritChange where
  "example_endless_gateway =
     \<lparr>QueryChanges = (\<lambda>opt. Inr (Some [example_change ''a'' Merged 20 (Some 15)])),
      ListChangeComments = example_comments\<rparr>"

text \<open>
  A handler for the example gateway, watching the project \<open>p\<close> and authenticated with the
  token \<open>secret\<close>; a handler for the gateway of one page that watches \<open>p\<close> and \<open>q\<close>; and
  a client with the first handler alone, whose credential source fails: it
  returns the empty token and an error, as the two source functions of \<^verbatim>\<open>Authenticate\<close>
  do when the file cannot be read.
\<close>

definition example_handler :: "(unit, unit) gerritInstanceHandler" where
  "example_handler =
     \<lparr>instance_name = ''host'', projects = [(''p'', None)], authService = [(''o'', ''secret'')],
      accountService = (), changeService = example_gateway, projectService = ()\<rparr>"

definition example_watcher :: "(unit, unit) gerritInstanceHandler" where
  "example_watcher =
     example_handler\<lparr>projects := [(''p'', None), (''q'', None)],
                     changeService := example_finite_gateway\<rparr>"

definition example_client :: "(unit, unit) Client" where
  "example_client =
     \<lparr>store = [example_handler], handlers = [(''host'', 0)],
      authentication = Some ('''', Some (GatewayError ''read token: no such file'')),
      previousToken = ''secret''\<rparr>"

text \<open>
  A client with two registered instances, a constructor of gateways that succeeds for the
  instance \<open>new\<close> alone, and a desired configuration that keeps \<open>host\<close> with another
  project, leaves out \<open>retired\<close> and adds \<open>new\<close> and \<open>bad\<close>.
\<close>

definition example_registry :: "(unit, unit) Client" where
  "example_registry =
     \<lparr>store = [example_handler, example_handler\<lparr>instance_name := ''retired''\<rparr>],
      handlers = [(''host'', 0), (''retired'', 1)],
      authentication = None, previousToken = ''secret''\<rparr>"

definition example_NewClient :: "string \<Rightarrow> error + (unit, unit) gerritClient" where
  "example_NewClient inst =
     (if inst = ''new''
      then Inr \<lparr>Authentication = [], Accounts = (), Changes = example_finite_gateway,
                Projects = ()\<rparr>
      else Inl (GatewayError ''parse''))"

definition example_instances :: "(string \<times> (string \<times> GerritQueryFilter option) list) list" where
  "example_instances = [(''host'', [(''q'', None)]), (''new'', [(''r'', None)]), (''bad'', [])]"

section \<open>Properties\<close>

subsection \<open>Patchset-level comments\<close>

lemma newMessages_iff:
  "newMessages lastUpdate n ms \<longleftrightarrow>
     (\<exists>m\<in>set ms. Message_RevisionNumber m = n \<and> After (Message_Date m) lastUpdate)"
  by (induction ms) (auto simp: parseStamp_def)

lemma comments_Inr:
  "injectPatchsetMessages_comments comments messages changed = Inr (messages', changed') \<Longrightarrow>
     \<exists>ms. messages' = messages @ ms \<and> list_all2 syntheticMessage comments ms
          \<and> changed' = (changed \<or> comments \<noteq> [])"
proof (induction comments arbitrary: messages changed)
  case Nil
  then show ?case by simp
next
  case (Cons c comments)
  from Cons.prems obtain u where u: "Comment_Updated c = Some u"
    by (cases "Comment_Updated c") auto
  let ?m = "\<lparr>Message_Author = Comment_Author c, Message_Date = u,
             Message_Message = Comment_Message c, Message_RevisionNumber = Comment_PatchSet c\<rparr>"
  from Cons.prems u
  have "injectPatchsetMessages_comments comments (messages @ [?m]) True = Inr (messages', changed')"
    by simp
  from Cons.IH [OF this] obtain ms where
    ms: "messages' = (messages @ [?m]) @ ms" "list_all2 syntheticMessage comments ms" "changed'"
    by auto
  have "syntheticMessage c ?m" using u by (simp add: syntheticMessage_def)
  with ms show ?case by (intro exI [of _ "?m # ms"]) simp
qed

lemma comments_total:
  "\<forall>c\<in>set comments. Comment_Updated c \<noteq> None \<Longrightarrow>
     \<exists>r. injectPatchsetMessages_comments comments messages changed = Inr r"
  by (induction comments arbitrary: messages changed) auto

lemma inject_fields:
  assumes "injectPatchsetMessages cs change = Inr (change', e)"
  shows "change' = change\<lparr>Messages := Messages change'\<rparr>"
  using assms
  by (auto simp: injectPatchsetMessages_def split: sum.splits option.splits prod.splits)

text \<open>
  Claim C8. When \<^verbatim>\<open>injectPatchsetMessages\<close> has merged at least one patchset-level comment
  into the messages of a change, each comment has become a message with the comment's
  author, timestamp, text and revision number, and the messages are the old ones and
  these, sorted by timestamp in non-decreasing order, those of equal timestamp in the
  order they had. Comments at \<open>T + 1\<close> and \<open>T - 1\<close> merged with one message at \<open>T\<close> give
  the order \<open>T - 1\<close>, \<open>T\<close>, \<open>T + 1\<close>.
\<close>

theorem inject_sorted_stable:
  assumes inj: "injectPatchsetMessages cs change = Inr (change', e)"
    and fetched: "ListChangeComments cs (ID change) = Inr (Some outer)"
    and level: "outer ''/PATCHSET_LEVEL'' = Some comments"
    and ne: "comments \<noteq> []"
  shows "\<exists>ms. list_all2 syntheticMessage comments ms
           \<and> sorted (map Message_Date (Messages change'))
           \<and> mset (Messages change') = mset (Messages change @ ms)
           \<and> (\<forall>k. filter (\<lambda>m. Message_Date m = k) (Messages change')
                   = filter (\<lambda>m. Message_Date m = k) (Messages change @ ms))
           \<and> (\<forall>native later earlier T.
                 Messages change = [native] \<and> Message_Date native = T
                 \<and> comments = [later, earlier]
                 \<and> Comment_Updated later = Some (T + 1) \<and> Comment_Updated earlier = Some (T - 1)
                 \<longrightarrow> map Message_Date (Messages change') = [T - 1, T, T + 1])"
proof -
  from inj fetched level obtain messages changed where
    c: "injectPatchsetMessages_comments comments (Messages change) False = Inr (messages, changed)"
    and m: "Messages change' = (if changed then sort_key Message_Date messages else messages)"
    by (auto simp: injectPatchsetMessages_def split: sum.splits)
  from comments_Inr [OF c] ne obtain ms where
    ms: "messages = Messages change @ ms" "list_all2 syntheticMessage comments ms" "changed"
    by auto
  with m have eq: "Messages change' = sort_key Message_Date (Messages change @ ms)" by simp
  have general: "sorted (map Message_Date (Messages change'))
      \<and> mset (Messages change') = mset (Messages change @ ms)
      \<and> (\<forall>k. filter (\<lambda>m. Message_Date m = k) (Messages change')
              = filter (\<lambda>m. Message_Date m = k) (Messages change @ ms))"
    unfolding eq by (simp only: sorted_sort_key sort_key_stable mset_sort simp_thms)
  have example: "map Message_Date (Messages change') = [T - 1, T, T + 1]"
    if "Messages change = [native]" "Message_Date native = T" "comments = [later, earlier]"
      "Comment_Updated later = Some (T + 1)" "Comment_Updated earlier = Some (T - 1)"
    for native later earlier T
    using that c m by auto
  from ms(2) general example show ?thesis
    by (intro exI [of _ ms]) blast
qed

theorem inject_sorted_stable_witness:
  "\<exists>change'. injectPatchsetMessages
       \<lparr>QueryChanges = (\<lambda>opt. Inr None), ListChangeComments = example_comments\<rparr>
       (example_change ''c1'' ''NEW'' 12 None) = Inr (change', None)
     \<and> sorted (map Message_Date (Messages change'))
     \<and> map Message_Date (Messages change') = [9, 10, 11]"
proof -
  let ?cs = "\<lparr>QueryChanges = (\<lambda>opt. Inr None), ListChangeComments = example_comments\<rparr>"
  let ?c = "example_change ''c1'' ''NEW'' 12 None"
  let ?outer = "[''/PATCHSET_LEVEL'' \<mapsto> [example_later, example_earlier]]"
  obtain change' where inj: "injectPatchsetMessages ?cs ?c = Inr (change', None)"
    by (simp add: injectPatchsetMessages_def example_comments_def example_later_def
        example_earlier_def)
  have fetched: "ListChangeComments ?cs (ID ?c) = Inr (Some ?outer)"
    by (simp add: example_comments_def)
  have level: "?outer ''/PATCHSET_LEVEL'' = Some [example_later, example_earlier]"
    by simp
  have ne: "[example_later, example_earlier] \<noteq> []"
    by simp
  have msgs: "Messages ?c = [example_native]" "Message_Date example_native = 10"
    "Comment_Updated example_later = Some (10 + 1)"
    "Comment_Updated example_earlier = Some (10 - 1)"
    by (simp_all add: example_change_def example_native_def example_later_def
        example_earlier_def)
  from inject_sorted_stable [OF inj fetched level ne] msgs
  have "sorted (map Message_Date (Messages change'))
      \<and> map Message_Date (Messages change') = [9, 10, 11]"
    by fastforce
  with inj show ?thesis by (intro exI [of _ change']) simp
qed



subsection \<open>The poller\<close>

lemma Merged_neq_New: "Merged \<noteq> New"
  by (simp add: Merged_def New_def)

lemma change_stale:
  "\<not> After (Updated c) lastUpdate \<Longrightarrow>
     QueryChangesForProject_change cs lastUpdate c pending = (Return pending, [])"
  by (simp add: QueryChangesForProject_change_def parseStamp_def)

lemma change_merged:
  "After (Updated c) lastUpdate \<Longrightarrow> Status c = Merged \<Longrightarrow>
     QueryChangesForProject_change cs lastUpdate c pending =
       (case Submitted c of
          None \<Rightarrow> (Panic NilSubmitted, [])
        | Some s \<Rightarrow> (Continue (if After s lastUpdate then pending @ [c] else pending), []))"
  by (simp add: QueryChangesForProject_change_def parseStamp_def split: option.splits)

lemma change_new:
  "After (Updated c) lastUpdate \<Longrightarrow> Status c = New \<Longrightarrow>
   Revisions c (CurrentRevision c) = Some r \<Longrightarrow>
     QueryChangesForProject_change cs lastUpdate c pending =
       (case injectPatchsetMessages cs c of
          Inl p \<Rightarrow> (Panic p, [ListChangeCommentsCall (ID c)])
        | Inr (c', e) \<Rightarrow>
            (Continue (if newMessages lastUpdate (Revision_Number r) (Messages c')
                          \<or> After (Revision_Created r) lastUpdate
                       then pending @ [c'] else pending),
             [ListChangeCommentsCall (ID c)]))"
  using Merged_neq_New
  by (simp add: QueryChangesForProject_change_def parseStamp_def split: sum.splits)

lemma change_new_missing:
  "After (Updated c) lastUpdate \<Longrightarrow> Status c = New \<Longrightarrow>
   Revisions c (CurrentRevision c) = None \<Longrightarrow>
     QueryChangesForProject_change cs lastUpdate c pending = (Continue pending, [])"
  using Merged_neq_New
  by (simp add: QueryChangesForProject_change_def parseStamp_def)

lemma change_other:
  "After (Updated c) lastUpdate \<Longrightarrow> Status c \<noteq> Merged \<Longrightarrow> Status c \<noteq> New \<Longrightarrow>
     QueryChangesForProject_change cs lastUpdate c pending = (Continue pending, [])"
  by (simp add: QueryChangesForProject_change_def parseStamp_def)

lemma inject_actionable:
  assumes "injectPatchsetMessages cs c = Inr (c', e)"
    and "After (Updated c) lastUpdate" "Status c = New"
    and "Revisions c (CurrentRevision c) = Some r"
    and "newMessages lastUpdate (Revision_Number r) (Messages c')
         \<or> After (Revision_Created r) lastUpdate"
  shows "actionable lastUpdate c'"
proof -
  from inject_fields [OF assms(1)] have eq: "c' = c\<lparr>Messages := Messages c'\<rparr>" .
  have "Status c' = Status c" "Updated c' = Updated c"
    "Revisions c' (CurrentRevision c') = Revisions c (CurrentRevision c)"
    by (subst eq, simp)+
  with assms Merged_neq_New show ?thesis
    by (simp add: actionable_def)
qed

lemma change_step:
  assumes "QueryChangesForProject_change cs lastUpdate c pending = (r, calls)"
  shows "(\<forall>p. r = Continue p \<longrightarrow> p = pending \<or> (\<exists>c'. p = pending @ [c'] \<and> actionable lastUpdate c'))
       \<and> (\<forall>p. r = Return p \<longrightarrow> p = pending)
       \<and> set calls \<subseteq> {ListChangeCommentsCall (ID c)}"
proof (cases "After (Updated c) lastUpdate")
  case False
  with assms show ?thesis by (auto simp: change_stale)
next
  case fresh: True
  show ?thesis
  proof (cases "Status c = Merged")
    case True
    with fresh assms show ?thesis
      by (auto simp: change_merged actionable_def split: option.splits if_splits)
  next
    case nm: False
    show ?thesis
    proof (cases "Status c = New")
      case False
      with nm fresh assms show ?thesis by (auto simp: change_other)
    next
      case new: True
      show ?thesis
      proof (cases "Revisions c (CurrentRevision c)")
        case None
        with new fresh assms show ?thesis by (auto simp: change_new_missing)
      next
        case (Some r)
        show ?thesis
        proof (cases "injectPatchsetMessages cs c")
          case (Inl p)
          with Some new fresh assms show ?thesis by (auto simp: change_new)
        next
          case (Inr ce)
          obtain c' e where ce: "ce = (c', e)" by (cases ce)
          from inject_actionable [OF Inr [unfolded ce] fresh new Some]
          show ?thesis using Some new fresh assms Inr ce
            by (auto simp: change_new split: if_splits)
        qed
      qed
    qed
  qed
qed


lemma page_extends:
  assumes "QueryChangesForProject_page cs lastUpdate xs pending = (r, calls)"
    and "r = Continue p \<or> r = Return p"
  shows "\<exists>added. p = pending @ added \<and> (\<forall>x\<in>set added. actionable lastUpdate x)"
  using assms
proof (induction xs arbitrary: pending calls)
  case Nil
  then show ?case by auto
next
  case (Cons x xs)
  obtain r1 c1 where s: "QueryChangesForProject_change cs lastUpdate x pending = (r1, c1)"
    by (cases "QueryChangesForProject_change cs lastUpdate x pending")
  note st = change_step [OF s]
  show ?case
  proof (cases r1)
    case (Continue p1)
    obtain r2 c2 where p2: "QueryChangesForProject_page cs lastUpdate xs p1 = (r2, c2)"
      by (cases "QueryChangesForProject_page cs lastUpdate xs p1")
    with Cons.prems s Continue have "r2 = r" by simp
    from Cons.IH [OF p2 [unfolded this] Cons.prems(2)] obtain added where
      a: "p = p1 @ added" "\<forall>x\<in>set added. actionable lastUpdate x" by blast
    from st Continue consider "p1 = pending"
      | c' where "p1 = pending @ [c']" "actionable lastUpdate c'" by blast
    then show ?thesis
    proof cases
      case 1
      with a show ?thesis by blast
    next
      case 2
      with a show ?thesis by (intro exI [of _ "c' # added"]) simp
    qed
  next
    case (Return p1)
    with Cons.prems s st show ?thesis by auto
  next
    case (Panic q)
    with Cons.prems s show ?thesis by auto
  qed
qed


lemma loop_extends:
  "QueryChangesForProject_loop fuel cs lastUpdate rateLimit opt start pending
     = Some (Returned result, calls) \<Longrightarrow>
   \<exists>added. result = pending @ added \<and> (\<forall>x\<in>set added. actionable lastUpdate x)"
proof (induction fuel arbitrary: opt start pending calls)
  case 0
  then show ?case by simp
next
  case (Suc fuel)
  let ?opt = "opt\<lparr>Limit := rateLimit, Start := start\<rparr>"
  show ?case
  proof (cases "QueryChanges cs ?opt")
    case (Inl a)
    with Suc.prems show ?thesis by (simp add: Let_def split: prod.splits)
  next
    case (Inr page)
    show ?thesis
    proof (cases page)
      case None
      with Inr Suc.prems show ?thesis by (simp add: Let_def)
    next
      case (Some changes)
      show ?thesis
      proof (cases "changes = []")
        case True
        with Inr Some Suc.prems show ?thesis by (simp add: Let_def)
      next
        case False
        obtain r1 c1 where pg: "QueryChangesForProject_page cs lastUpdate changes pending = (r1, c1)"
          by (cases "QueryChangesForProject_page cs lastUpdate changes pending")
        show ?thesis
        proof (cases r1)
          case (Continue p1)
          from page_extends [OF pg] Continue obtain a1 where
            a1: "p1 = pending @ a1" "\<forall>x\<in>set a1. actionable lastUpdate x" by blast
          from Suc.prems Inr Some False pg Continue obtain c2 where
            "QueryChangesForProject_loop fuel cs lastUpdate rateLimit ?opt
               (start + int (length changes)) p1 = Some (Returned result, c2)"
            by (auto simp: Let_def split: option.splits prod.splits)
          from Suc.IH [OF this] obtain a2 where
            "result = p1 @ a2" "\<forall>x\<in>set a2. actionable lastUpdate x" by blast
          with a1 show ?thesis by (intro exI [of _ "a1 @ a2"]) auto
        next
          case (Return p1)
          from page_extends [OF pg] Return obtain a1 where
            a1: "p1 = pending @ a1" "\<forall>x\<in>set a1. actionable lastUpdate x" by blast
          with Suc.prems Inr Some False pg Return show ?thesis
            by (auto simp: Let_def)
        next
          case (Panic q)
          with Suc.prems Inr Some False pg show ?thesis by (simp add: Let_def)
        qed
      qed
    qed
  qed
qed





lemmas example_defs =
  example_change_def example_native_def example_later_def example_earlier_def
  example_comments_def example_page_def example_gateway_def
  example_merged_def QueryChangesForProject_opt_def

lemmas poll_eval =
  QueryChangesForProject_change_def injectPatchsetMessages_def parseStamp_def Merged_def New_def
  handler_QueryChangesForProject_def Let_def

lemma loop_Failed_origin:
  "QueryChangesForProject_loop fuel cs lastUpdate rateLimit opt start pending
     = Some (Failed e, calls) \<Longrightarrow>
   \<exists>opt' err resp. QueryChanges cs opt' = Inl (err, resp) \<and> e = responseBodyError err resp"
proof (induction fuel arbitrary: opt start pending calls)
  case 0
  then show ?case by simp
next
  case (Suc fuel)
  let ?opt = "opt\<lparr>Limit := rateLimit, Start := start\<rparr>"
  show ?case
  proof (cases "QueryChanges cs ?opt")
    case (Inl a)
    with Suc.prems show ?thesis
      by (cases a) (auto simp: Let_def)
  next
    case (Inr page)
    show ?thesis
    proof (cases page)
      case None
      with Inr Suc.prems show ?thesis by (simp add: Let_def)
    next
      case (Some changes)
      show ?thesis
      proof (cases "changes = []")
        case True
        with Inr Some Suc.prems show ?thesis by (simp add: Let_def)
      next
        case False
        obtain r1 c1 where pg: "QueryChangesForProject_page cs lastUpdate changes pending = (r1, c1)"
          by (cases "QueryChangesForProject_page cs lastUpdate changes pending")
        show ?thesis
        proof (cases r1)
          case (Continue p1)
          with Suc.prems Inr Some False pg obtain c2 where
            "QueryChangesForProject_loop fuel cs lastUpdate rateLimit ?opt
               (start + int (length changes)) p1 = Some (Failed e, c2)"
            by (auto simp: Let_def split: option.splits prod.splits)
          from Suc.IH [OF this] show ?thesis .
        next
          case (Return p1)
          with Suc.prems Inr Some False pg show ?thesis by (simp add: Let_def)
        next
          case (Panic q)
          with Suc.prems Inr Some False pg show ?thesis by (simp add: Let_def)
        qed
      qed
    qed
  qed
qed



lemma change_no_panic:
  assumes merged: "Status c = Merged \<and> After (Updated c) lastUpdate \<longrightarrow> Submitted c \<noteq> None"
    and fetched: "\<forall>i. ListChangeComments cs i \<noteq> Inr None"
    and comments: "\<forall>i outer comments. ListChangeComments cs i = Inr (Some outer) \<longrightarrow>
                     outer ''/PATCHSET_LEVEL'' = Some comments \<longrightarrow>
                     (\<forall>x\<in>set comments. Comment_Updated x \<noteq> None)"
  shows "fst (QueryChangesForProject_change cs lastUpdate c pending) \<noteq> Panic p"
proof -
  have inj: "injectPatchsetMessages cs c \<noteq> Inl q" for q
  proof (cases "ListChangeComments cs (ID c)")
    case (Inl a)
    then show ?thesis by (simp add: injectPatchsetMessages_def)
  next
    case (Inr out)
    with fetched obtain outer where Inr: "ListChangeComments cs (ID c) = Inr (Some outer)"
      by (cases out) auto
    show ?thesis
    proof (cases "outer ''/PATCHSET_LEVEL''")
      case None
      with Inr show ?thesis by (simp add: injectPatchsetMessages_def)
    next
      case (Some cms)
      with comments Inr have "\<forall>x\<in>set cms. Comment_Updated x \<noteq> None" by blast
      from comments_total [OF this, of "Messages c" False] Inr Some show ?thesis
        by (auto simp: injectPatchsetMessages_def)
    qed
  qed
  with merged show ?thesis
    by (auto simp: QueryChangesForProject_change_def Let_def parseStamp_def
        split: option.splits sum.splits)
qed

lemma page_no_panic:
  assumes merged: "\<forall>c\<in>set changes. Status c = Merged \<and> After (Updated c) lastUpdate
                     \<longrightarrow> Submitted c \<noteq> None"
    and fetched: "\<forall>i. ListChangeComments cs i \<noteq> Inr None"
    and comments: "\<forall>i outer comments. ListChangeComments cs i = Inr (Some outer) \<longrightarrow>
                     outer ''/PATCHSET_LEVEL'' = Some comments \<longrightarrow>
                     (\<forall>x\<in>set comments. Comment_Updated x \<noteq> None)"
  shows "fst (QueryChangesForProject_page cs lastUpdate changes pending) \<noteq> Panic p"
  using merged
proof (induction changes arbitrary: pending)
  case Nil
  then show ?case by simp
next
  case (Cons c changes)
  from Cons.prems have "Status c = Merged \<and> After (Updated c) lastUpdate \<longrightarrow> Submitted c \<noteq> None"
    by simp
  from change_no_panic [OF this fetched comments]
  have np: "fst (QueryChangesForProject_change cs lastUpdate c pending) \<noteq> Panic q" for q .
  from Cons.prems have rest: "\<forall>c\<in>set changes. Status c = Merged \<and> After (Updated c) lastUpdate
                     \<longrightarrow> Submitted c \<noteq> None" by simp
  obtain r1 c1 where s: "QueryChangesForProject_change cs lastUpdate c pending = (r1, c1)"
    by (cases "QueryChangesForProject_change cs lastUpdate c pending")
  show ?case
  proof (cases r1)
    case (Continue p1)
    with s Cons.IH [OF rest, of p1] show ?thesis
      by (auto split: prod.splits)
  next
    case (Return p1)
    with s show ?thesis by simp
  next
    case (Panic q)
    with s np [of q] show ?thesis by simp
  qed
qed

lemma loop_total:
  assumes merged: "\<forall>opt changes. QueryChanges cs opt = Inr (Some changes) \<longrightarrow>
                     (\<forall>c\<in>set changes. Status c = Merged \<and> After (Updated c) lastUpdate
                        \<longrightarrow> Submitted c \<noteq> None)"
    and fetched: "\<forall>i. ListChangeComments cs i \<noteq> Inr None"
    and comments: "\<forall>i outer comments. ListChangeComments cs i = Inr (Some outer) \<longrightarrow>
                     outer ''/PATCHSET_LEVEL'' = Some comments \<longrightarrow>
                     (\<forall>x\<in>set comments. Comment_Updated x \<noteq> None)"
    and finite: "\<forall>opt changes. int n \<le> Start opt \<longrightarrow> QueryChanges cs opt = Inr (Some changes)
                     \<longrightarrow> changes = []"
  shows "nat (int n - start) < fuel \<Longrightarrow>
         \<exists>r calls. QueryChangesForProject_loop fuel cs lastUpdate rateLimit opt start pending
                      = Some (r, calls) \<and> (\<forall>p. r \<noteq> Panicked p)"
proof (induction fuel arbitrary: opt start pending)
  case 0
  then show ?case by simp
next
  case (Suc fuel)
  let ?opt = "opt\<lparr>Limit := rateLimit, Start := start\<rparr>"
  show ?case
  proof (cases "QueryChanges cs ?opt")
    case (Inl a)
    then show ?thesis by (cases a) (simp add: Let_def)
  next
    case (Inr page)
    show ?thesis
    proof (cases page)
      case None
      with Inr show ?thesis by (simp add: Let_def)
    next
      case (Some changes)
      show ?thesis
      proof (cases "changes = []")
        case True
        with Inr Some show ?thesis by (simp add: Let_def)
      next
        case False
        with finite Inr Some have lt: "start < int n" by force
        from merged Inr Some have m: "\<forall>c\<in>set changes. Status c = Merged \<and> After (Updated c) lastUpdate
                        \<longrightarrow> Submitted c \<noteq> None" by blast
        obtain r1 c1 where pg: "QueryChangesForProject_page cs lastUpdate changes pending = (r1, c1)"
          by (cases "QueryChangesForProject_page cs lastUpdate changes pending")
        from page_no_panic [OF m fetched comments, of pending] pg have np: "r1 \<noteq> Panic q" for q by simp
        show ?thesis
        proof (cases r1)
          case (Continue p1)
          from False have "0 < length changes" by simp
          with lt Suc.prems have "nat (int n - (start + int (length changes))) < fuel" by linarith
          from Suc.IH [OF this, of ?opt p1] obtain r calls where
            "QueryChangesForProject_loop fuel cs lastUpdate rateLimit ?opt
               (start + int (length changes)) p1 = Some (r, calls)" "\<forall>p. r \<noteq> Panicked p"
            by blast
          with Inr Some False pg Continue show ?thesis by (simp add: Let_def)
        next
          case (Return p1)
          with Inr Some False pg show ?thesis by (simp add: Let_def)
        next
          case (Panic q)
          with np [of q] show ?thesis by simp
        qed
      qed
    qed
  qed
qed











text \<open>
  Claim C10. When the fetch of the patchset-level comments of an open change fails, the
  change is left as received, with the error only reported to the logging caller; the
  classification goes on with the native messages alone and includes the change when one
  of them (of the current revision) or the revision is newer than the watermark, and the
  poll goes on with the next change. An error the poll returns is always one of
  \<^verbatim>\<open>QueryChanges\<close>, never the one of the comment fetch.
\<close>

theorem comment_fetch_failure_only_logged:
  assumes status: "Status change = New"
    and fresh: "After (Updated change) lastUpdate"
    and revision: "Revisions change (CurrentRevision change) = Some r"
    and failed: "ListChangeComments cs (ID change) = Inl err"
  shows "injectPatchsetMessages cs change = Inr (change, Some err)
       \<and> QueryChangesForProject_page cs lastUpdate (change # later) pending =
           (case QueryChangesForProject_page cs lastUpdate later
                   (if (\<exists>m\<in>set (Messages change).
                            Message_RevisionNumber m = Revision_Number r
                            \<and> After (Message_Date m) lastUpdate)
                       \<or> After (Revision_Created r) lastUpdate
                    then pending @ [change] else pending) of
              (res, calls) \<Rightarrow> (res, ListChangeCommentsCall (ID change) # calls))
       \<and> (\<forall>fuel rateLimit opt start pending' e calls.
             QueryChangesForProject_loop fuel cs lastUpdate rateLimit opt start pending'
               = Some (Failed e, calls) \<longrightarrow>
             (\<exists>opt' err' resp. QueryChanges cs opt' = Inl (err', resp)
                \<and> e = responseBodyError err' resp))"
proof -
  from failed have inj: "injectPatchsetMessages cs change = Inr (change, Some err)"
    by (simp add: injectPatchsetMessages_def)
  with status fresh revision
  have step: "QueryChangesForProject_change cs lastUpdate change pending =
           (Continue (if (\<exists>m\<in>set (Messages change).
                            Message_RevisionNumber m = Revision_Number r
                            \<and> After (Message_Date m) lastUpdate)
                         \<or> After (Revision_Created r) lastUpdate
                      then pending @ [change] else pending),
            [ListChangeCommentsCall (ID change)])"
    by (simp add: change_new newMessages_iff)
  from inj step loop_Failed_origin show ?thesis
    by (simp split: prod.splits)
qed

theorem comment_fetch_failure_only_logged_witness:
  "handler_QueryChangesForProject (Suc (Suc 0)) example_failing_gateway ''p'' 9 100 []
     = Some (Returned [example_change ''b'' New 19 None],
             [QueryChangesCall ((QueryChangesForProject_opt ''p'' [])\<lparr>Limit := 100, Start := 0\<rparr>),
              ListChangeCommentsCall ''b'',
              QueryChangesCall ((QueryChangesForProject_opt ''p'' [])\<lparr>Limit := 100, Start := 1\<rparr>)])"
proof -
  let ?b = "example_change ''b'' New 19 None"
  have status: "Status ?b = New" and fresh: "After (Updated ?b) 9"
    and revision: "Revisions ?b (CurrentRevision ?b)
                   = Some \<lparr>Revision_Number = 1, Revision_Created = 5\<rparr>"
    and failed: "ListChangeComments example_failing_gateway (ID ?b) = Inl (GatewayError ''503'')"
    and native: "Messages ?b = [example_native]" "Message_RevisionNumber example_native = 1"
      "Message_Date example_native = 10"
    by (simp_all add: example_change_def example_failing_gateway_def example_native_def)
  from comment_fetch_failure_only_logged [OF status fresh revision failed, of "[]" "[]"] native
  have "QueryChangesForProject_page example_failing_gateway 9 [?b] [] =
          (Continue [?b], [ListChangeCommentsCall (ID ?b)])"
    by simp
  moreover have "ID ?b = ''b''" by (simp add: example_change_def)
  moreover have "QueryChanges example_failing_gateway
       ((QueryChangesForProject_opt ''p'' [])\<lparr>Limit := 100, Start := 0\<rparr>) = Inr (Some [?b])"
    "QueryChanges example_failing_gateway
       ((QueryChangesForProject_opt ''p'' [])\<lparr>Limit := 100, Start := 1\<rparr>) = Inr (Some [])"
    by (simp_all add: example_failing_gateway_def)
  ultimately show ?thesis
    by (simp add: handler_QueryChangesForProject_def Let_def)
qed

subsection \<open>Nil dereferences and termination\<close>

lemma inject_nil_map_panics:
  "ListChangeComments cs (ID change) = Inr None \<Longrightarrow>
     injectPatchsetMessages cs change = Inl NilComments"
  by (simp add: injectPatchsetMessages_def)




text \<open>And a gateway whose pages never end keeps the poll running, whatever the fuel.\<close>

lemma poll_of_endless_gateway_never_returns:
  "QueryChangesForProject_loop fuel example_endless_gateway 10 rateLimit opt start pending = None"
proof (induction fuel arbitrary: opt start pending)
  case 0
  show ?case by simp
next
  case (Suc fuel)
  have "QueryChangesForProject_page example_endless_gateway 10
          [example_change ''a'' Merged 20 (Some 15)] pending
        = (Continue (pending @ [example_change ''a'' Merged 20 (Some 15)]), [])"
    by (simp add: poll_eval example_defs)
  with Suc show ?case
    by (simp add: Let_def example_endless_gateway_def)
qed



subsection \<open>The fan-out poll\<close>

lemma poll_newer_than_watermark:
  assumes "handler_QueryChangesForProject fuel cs project lastUpdate rateLimit fs
             = Some (Returned changes, calls)"
  shows "\<forall>x\<in>set changes. After (Updated x) lastUpdate"
proof -
  from assms loop_extends [of fuel cs lastUpdate rateLimit _ 0 "[]" changes calls]
  have "\<forall>x\<in>set changes. actionable lastUpdate x"
    by (auto simp: handler_QueryChangesForProject_def)
  then show ?thesis by (simp add: actionable_def)
qed

lemma queryAllChanges_projects_parts:
  "queryAllChanges_projects fuel h lastState rateLimit timeNow ps acc = Some (Inr result) \<Longrightarrow>
   \<exists>parts. result = acc @ concat parts
     \<and> list_all2 (\<lambda>pf part.
          case lastState (fst pf) of
            None \<Rightarrow> project_poll fuel h rateLimit timeNow pf part
                      \<and> (\<forall>x\<in>set part. After (Updated x) timeNow)
          | Some t \<Rightarrow> project_poll fuel h rateLimit t pf part
                      \<and> (\<forall>x\<in>set part. After (Updated x) t)) ps parts"
proof (induction ps arbitrary: acc)
  case Nil
  then show ?case by simp
next
  case (Cons pf ps)
  obtain project filters where pf: "pf = (project, filters)" by (cases pf)
  let ?lu = "case lastState project of None \<Rightarrow> timeNow | Some t \<Rightarrow> t"
  let ?poll = "handler_QueryChangesForProject fuel (changeService h) project ?lu rateLimit
                 (queryStringsFromQueryFilter filters)"
  let ?P = "\<lambda>pf part.
          case lastState (fst pf) of
            None \<Rightarrow> project_poll fuel h rateLimit timeNow pf part
                      \<and> (\<forall>x\<in>set part. After (Updated x) timeNow)
          | Some t \<Rightarrow> project_poll fuel h rateLimit t pf part
                      \<and> (\<forall>x\<in>set part. After (Updated x) t)"
  from Cons.prems pf obtain r calls where poll: "?poll = Some (r, calls)"
    by (cases ?poll) (auto simp: Let_def)
  show ?case
  proof (cases r)
    case (Returned changes)
    with Cons.prems pf poll
    have "queryAllChanges_projects fuel h lastState rateLimit timeNow ps (acc @ changes)
            = Some (Inr result)"
      by (simp add: Let_def)
    from Cons.IH [OF this] obtain parts where
      parts: "result = (acc @ changes) @ concat parts" "list_all2 ?P ps parts" by blast
    from poll Returned have p: "?poll = Some (Returned changes, calls)" by simp
    from poll_newer_than_watermark [OF p] have "\<forall>x\<in>set changes. After (Updated x) ?lu" .
    with p pf have "?P pf changes"
      by (cases "lastState project") (simp_all add: project_poll_def)
    with parts show ?thesis
      by (intro exI [of _ "changes # parts"]) simp
  next
    case (Failed err)
    with Cons.prems pf poll
    have "queryAllChanges_projects fuel h lastState rateLimit timeNow ps acc = Some (Inr result)"
      by (simp add: Let_def)
    from Cons.IH [OF this] obtain parts where
      parts: "result = acc @ concat parts" "list_all2 ?P ps parts" by blast
    have "?P pf []"
      using pf poll Failed by (cases "lastState project") (simp_all add: project_poll_def)
    with parts show ?thesis
      by (intro exI [of _ "[] # parts"]) simp
  next
    case (Panicked p)
    with Cons.prems pf poll show ?thesis by (simp add: Let_def)
  qed
qed

lemma queryAllChanges_projects_total:
  assumes ends: "\<forall>t. poll_ends (changeService h) t n" and fuel: "n < fuel"
  shows "\<exists>result. queryAllChanges_projects fuel h lastState rateLimit timeNow ps acc
                     = Some (Inr result)"
proof (induction ps arbitrary: acc)
  case Nil
  show ?case by simp
next
  case (Cons pf ps)
  obtain project filters where pf: "pf = (project, filters)" by (cases pf)
  let ?lu = "case lastState project of None \<Rightarrow> timeNow | Some t \<Rightarrow> t"
  let ?poll = "handler_QueryChangesForProject fuel (changeService h) project ?lu rateLimit
                 (queryStringsFromQueryFilter filters)"
  from ends have e: "poll_ends (changeService h) ?lu n" by blast
  from fuel have f: "nat (int n - 0) < fuel" by simp
  from e have "\<forall>opt changes. QueryChanges (changeService h) opt = Inr (Some changes) \<longrightarrow>
            (\<forall>c\<in>set changes. Status c = Merged \<and> After (Updated c) ?lu
               \<longrightarrow> Submitted c \<noteq> None)"
    and "\<forall>i. ListChangeComments (changeService h) i \<noteq> Inr None"
    and "\<forall>i outer comments. ListChangeComments (changeService h) i = Inr (Some outer) \<longrightarrow>
            outer ''/PATCHSET_LEVEL'' = Some comments \<longrightarrow>
            (\<forall>x\<in>set comments. Comment_Updated x \<noteq> None)"
    and "\<forall>opt changes. int n \<le> Start opt \<longrightarrow>
            QueryChanges (changeService h) opt = Inr (Some changes) \<longrightarrow> changes = []"
    by (simp_all add: poll_ends_def)
  from loop_total [OF this f] obtain r calls where
    poll: "?poll = Some (r, calls)" and np: "\<forall>p. r \<noteq> Panicked p"
    unfolding handler_QueryChangesForProject_def by blast
  show ?case
  proof (cases r)
    case (Returned changes)
    with poll pf Cons.IH [of "acc @ changes"] show ?thesis by (simp add: Let_def)
  next
    case (Failed err)
    with poll pf Cons.IH [of acc] show ?thesis by (simp add: Let_def)
  next
    case (Panicked p)
    with np show ?thesis by simp
  qed
qed

text \<open>
  Claim C5. Whenever \<^verbatim>\<open>queryAllChanges\<close> returns, its result is the concatenation of one
  part for each project, in the order of the iteration, and each part is what the poll of
  that project adds. For a project absent from the sync state the poll has the watermark
  \<open>timeNow\<close>, the time read at the start, and every change of its part was updated
  strictly after \<open>timeNow\<close>: nothing of the backlog of the project. For a project in the
  sync state the poll has the watermark found there. And \<^verbatim>\<open>queryAllChanges\<close> does
  return when the polls of the gateway end.
\<close>

theorem unsynced_project_polled_from_now:
  "(\<forall>result. queryAllChanges fuel h lastState rateLimit timeNow = Some (Inr result) \<longrightarrow>
      (\<exists>parts. result = concat parts
         \<and> list_all2 (\<lambda>pf part.
              case lastState (fst pf) of
                None \<Rightarrow> project_poll fuel h rateLimit timeNow pf part
                          \<and> (\<forall>x\<in>set part. After (Updated x) timeNow)
              | Some t \<Rightarrow> project_poll fuel h rateLimit t pf part
                          \<and> (\<forall>x\<in>set part. After (Updated x) t)) (projects h) parts))
   \<and> ((\<forall>t. poll_ends (changeService h) t n) \<and> n < fuel \<longrightarrow>
        (\<exists>result. queryAllChanges fuel h lastState rateLimit timeNow = Some (Inr result)))"
  using queryAllChanges_projects_parts [of fuel h lastState rateLimit timeNow "projects h" "[]"]
    queryAllChanges_projects_total [of h n fuel lastState rateLimit timeNow "projects h" "[]"]
  by (simp add: queryAllChanges_def)

theorem unsynced_project_polled_from_now_witness:
  "queryAllChanges (Suc (Suc (Suc 0))) example_watcher [''q'' \<mapsto> 100] 100 10
     = Some (Inr [example_change ''a'' Merged 20 (Some 15), example_merged])"
proof -
  have ends: "(\<forall>t. poll_ends (changeService example_watcher) t 2) \<and> 2 < Suc (Suc (Suc 0))"
    by (auto simp: poll_ends_def example_watcher_def example_finite_gateway_def
        example_change_def example_comments_def example_later_def example_earlier_def
        Merged_def New_def split: if_splits)
  note both = unsynced_project_polled_from_now
                [of "Suc (Suc (Suc 0))" example_watcher "[''q'' \<mapsto> 100]" 100 10 2]
  from both [THEN conjunct2] ends obtain result where
    run: "queryAllChanges (Suc (Suc (Suc 0))) example_watcher [''q'' \<mapsto> 100] 100 10
            = Some (Inr result)"
    by blast
  from both [THEN conjunct1] run obtain parts where
    parts: "result = concat parts"
    and each: "list_all2 (\<lambda>pf part.
              case [''q'' \<mapsto> (100 :: Time)] (fst pf) of
                None \<Rightarrow> project_poll (Suc (Suc (Suc 0))) example_watcher 100 10 pf part
                          \<and> (\<forall>x\<in>set part. After (Updated x) 10)
              | Some t \<Rightarrow> project_poll (Suc (Suc (Suc 0))) example_watcher 100 t pf part
                          \<and> (\<forall>x\<in>set part. After (Updated x) t)) (projects example_watcher) parts"
    by blast
  from each obtain pp pq where two: "parts = [pp, pq]"
    and p: "project_poll (Suc (Suc (Suc 0))) example_watcher 100 10 (''p'', None) pp"
    and q: "project_poll (Suc (Suc (Suc 0))) example_watcher 100 100 (''q'', None) pq"
    by (auto simp: example_watcher_def example_handler_def list_all2_Cons1)
  from p have "pp = [example_change ''a'' Merged 20 (Some 15), example_merged]"
    by (simp add: project_poll_def example_watcher_def example_handler_def
        queryStringsFromQueryFilter_def poll_eval example_defs example_finite_gateway_def)
  moreover from q have "pq = []"
    by (simp add: project_poll_def example_watcher_def example_handler_def
        queryStringsFromQueryFilter_def poll_eval example_defs example_finite_gateway_def)
  ultimately show ?thesis using run parts two by simp
qed

subsection \<open>Unregistered instances and projects\<close>

text \<open>
  Claim C6. For every sync state and rate limit, \<^verbatim>\<open>Client.QueryChangesForInstance\<close> on an
  unregistered instance returns the empty sequence, and \<^verbatim>\<open>Client.QueryChangesForProject\<close>
  on an unregistered instance, or on a project not registered for the instance, returns
  a not-found error; neither makes a request, so both return whatever the fuel.
\<close>

theorem unregistered_instance_soft_project_error:
  "(map_of (handlers c) inst = None \<longrightarrow>
      Client_QueryChangesForInstance fuel c inst lastState rateLimit timeNow = Some (Inr [])
      \<and> Client_QueryChangesForProject fuel c inst project lastUpdate rateLimit additionalFilters
          = Some (Failed (InstanceNotFound inst)))
   \<and> (map_of (handlers c) inst = Some h \<and> map_of (projects (store c ! h)) project = None \<longrightarrow>
      Client_QueryChangesForProject fuel c inst project lastUpdate rateLimit additionalFilters
        = Some (Failed (ProjectNotRegistered project inst)))"
  by (simp add: Client_QueryChangesForInstance_def Client_QueryChangesForProject_def)

theorem unregistered_instance_soft_project_error_witness:
  "Client_QueryChangesForInstance 0 example_client ''elsewhere'' Map.empty 100 10 = Some (Inr [])
   \<and> Client_QueryChangesForProject 0 example_client ''elsewhere'' ''p'' 10 100 []
       = Some (Failed (InstanceNotFound ''elsewhere''))
   \<and> Client_QueryChangesForProject 0 example_client ''host'' ''q'' 10 100 []
       = Some (Failed (ProjectNotRegistered ''q'' ''host''))"
proof -
  have none: "map_of (handlers example_client) ''elsewhere'' = None"
    by (simp add: example_client_def)
  have some: "map_of (handlers example_client) ''host'' = Some 0
              \<and> map_of (projects (store example_client ! 0)) ''q'' = None"
    by (simp add: example_client_def example_handler_def)
  from unregistered_instance_soft_project_error
         [of example_client "''elsewhere''" 0 Map.empty 100 10 "''p''" 10 "[]" 0, THEN conjunct1] none
       unregistered_instance_soft_project_error
         [of example_client "''host''" 0 Map.empty 100 10 "''q''" 10 "[]" 0, THEN conjunct2] some
  show ?thesis by simp
qed

subsection \<open>Credential rotation\<close>

text \<open>
  Claim C4 says that a failed read of the credential source leaves the remembered token
  and the handlers' credentials as they are. The code does not: with the token \<open>secret\<close>
  applied and a source that fails, returning the empty token with its error,
  \<^verbatim>\<open>authenticateOnce\<close> remembers the empty token and hands it to the handler's gateway.
\<close>

theorem failed_read_replaces_credential:
  "authenticateOnce example_client =
     Inr (example_client
            \<lparr>previousToken := '''',
             store := [example_handler\<lparr>authService := [(''o'', ''secret''), (''o'', '''')]\<rparr>]\<rparr>)"
  by (simp add: authenticateOnce_def example_client_def example_handler_def SetCookieAuth_def)



subsection \<open>Reconfiguration\<close>

lemma UC_length:
  "UpdateClients_instances NC old insts rest nh errs st = (nh', errs', st') \<Longrightarrow>
   length st \<le> length st'"
proof (induction rest arbitrary: nh errs st)
  case Nil
  then show ?case by simp
next
  case (Cons x rest)
  obtain inst ps where x: "x = (inst, ps)" by (cases x)
  from Cons.prems x show ?case
    by (auto split: option.splits sum.splits dest!: Cons.IH)
qed

lemma UC_other:
  "UpdateClients_instances NC old insts rest nh errs st = (nh', errs', st') \<Longrightarrow>
   inst \<notin> fst ` set rest \<Longrightarrow> map_of nh' inst = map_of nh inst"
proof (induction rest arbitrary: nh errs st)
  case Nil
  then show ?case by simp
next
  case (Cons x rest)
  obtain i ps where x: "x = (i, ps)" by (cases x)
  with Cons.prems have ne: "i \<noteq> inst" and rest: "inst \<notin> fst ` set rest" by auto
  from Cons.prems(1) x Cons.IH [OF _ rest] ne show ?case
    by (auto split: option.splits sum.splits simp: update_conv')
qed

lemma UC_untouched:
  "UpdateClients_instances NC old insts rest nh errs st = (nh', errs', st') \<Longrightarrow>
   a < length st \<Longrightarrow> \<forall>inst\<in>fst ` set rest. map_of old inst \<noteq> Some a \<Longrightarrow>
   st' ! a = st ! a"
proof (induction rest arbitrary: nh errs st)
  case Nil
  then show ?case by simp
next
  case (Cons x rest)
  obtain i ps where x: "x = (i, ps)" by (cases x)
  from Cons.prems(3) x have hd: "map_of old i \<noteq> Some a"
    and rest: "\<forall>inst\<in>fst ` set rest. map_of old inst \<noteq> Some a" by auto
  show ?case
  proof (cases "map_of old i")
    case (Some b)
    with hd have ne: "b \<noteq> a" by simp
    from Cons.prems(1) x Some
    have "UpdateClients_instances NC old insts rest (AList.update i b nh) errs
            (st[b := (st ! b)\<lparr>projects := instance_projects insts i\<rparr>]) = (nh', errs', st')"
      by simp
    from Cons.IH [OF this _ rest] Cons.prems(2) ne show ?thesis by simp
  next
    case None
    show ?thesis
    proof (cases "NC i")
      case (Inl e)
      with Cons.prems(1) x None
      have "UpdateClients_instances NC old insts rest nh (errs @ [e]) st = (nh', errs', st')"
        by simp
      from Cons.IH [OF this Cons.prems(2) rest] show ?thesis .
    next
      case (Inr gc)
      with Cons.prems(1) x None obtain h where
        "UpdateClients_instances NC old insts rest (AList.update i (length st) nh) errs
           (st @ [h]) = (nh', errs', st')"
        by simp
      from Cons.IH [OF this _ rest] Cons.prems(2) show ?thesis by (simp add: nth_append)
    qed
  qed
qed

lemma distinct_snd_inj:
  assumes "distinct (map snd old)" "map_of old i = Some a" "map_of old j = Some a"
  shows "i = j"
proof -
  from assms(2,3) have "(i, a) \<in> set old" "(j, a) \<in> set old" by (auto dest: map_of_SomeD)
  moreover from assms(1) have "inj_on snd (set old)" by (simp add: distinct_map)
  ultimately have "(i, a) = (j, a)" by (intro inj_onD [of snd "set old"]) simp_all
  then show ?thesis by simp
qed

lemma UC_preserved:
  assumes inj: "distinct (map snd old)"
  shows "UpdateClients_instances NC old insts rest nh errs st = (nh', errs', st') \<Longrightarrow>
   \<forall>a\<in>snd ` set old. a < length st \<Longrightarrow>
   inst \<in> fst ` set rest \<Longrightarrow> map_of old inst = Some a \<Longrightarrow>
   map_of nh' inst = Some a
   \<and> st' ! a = (st ! a)\<lparr>projects := instance_projects insts inst\<rparr>"
proof (induction rest arbitrary: nh errs st)
  case Nil
  then show ?case by simp
next
  case (Cons x rest)
  obtain i ps where x: "x = (i, ps)" by (cases x)
  from Cons.prems(4) have a: "a \<in> snd ` set old" by (force dest: map_of_SomeD)
  with Cons.prems(2) have alt: "a < length st" by blast
  show ?case
  proof (cases "map_of old i")
    case (Some b)
    let ?st = "st[b := (st ! b)\<lparr>projects := instance_projects insts i\<rparr>]"
    from Cons.prems(1) x Some
    have run: "UpdateClients_instances NC old insts rest (AList.update i b nh) errs ?st
                 = (nh', errs', st')"
      by simp
    from Cons.prems(2) have bound: "\<forall>a\<in>snd ` set old. a < length ?st" by simp
    show ?thesis
    proof (cases "inst \<in> fst ` set rest")
      case True
      from Cons.IH [OF run bound True Cons.prems(4)]
      have r: "map_of nh' inst = Some a"
        "st' ! a = (?st ! a)\<lparr>projects := instance_projects insts inst\<rparr>" by simp_all
      show ?thesis
      proof (cases "b = a")
        case True
        with Some Cons.prems(4) inj have "i = inst" by (auto dest: distinct_snd_inj)
        with r True alt show ?thesis by simp
      next
        case False
        with r show ?thesis by simp
      qed
    next
      case False
      with Cons.prems(3) x have eq: "i = inst" by auto
      with Some Cons.prems(4) have ba: "b = a" by simp
      have "\<forall>j\<in>fst ` set rest. map_of old j \<noteq> Some a"
      proof
        fix j assume "j \<in> fst ` set rest"
        with False have "j \<noteq> inst" by auto
        with inj Cons.prems(4) show "map_of old j \<noteq> Some a"
          by (auto dest: distinct_snd_inj)
      qed
      from UC_untouched [OF run _ this] alt have "st' ! a = ?st ! a" by simp
      moreover from UC_other [OF run False] eq ba have "map_of nh' inst = Some a"
        by (simp add: update_conv')
      ultimately show ?thesis using eq ba alt by simp
    qed
  next
    case None
    with Cons.prems(4) have ne: "i \<noteq> inst" by auto
    with Cons.prems(3) x have rest: "inst \<in> fst ` set rest" by auto
    show ?thesis
    proof (cases "NC i")
      case (Inl e)
      with Cons.prems(1) x None
      have "UpdateClients_instances NC old insts rest nh (errs @ [e]) st = (nh', errs', st')"
        by simp
      from Cons.IH [OF this Cons.prems(2) rest Cons.prems(4)] show ?thesis .
    next
      case (Inr gc)
      with Cons.prems(1) x None obtain h where
        run: "UpdateClients_instances NC old insts rest (AList.update i (length st) nh) errs
           (st @ [h]) = (nh', errs', st')"
        by simp
      from Cons.prems(2) have "\<forall>a\<in>snd ` set old. a < length (st @ [h])" by auto
      from Cons.IH [OF run this rest Cons.prems(4)] alt show ?thesis
        by (simp add: nth_append)
    qed
  qed
qed


lemma UC_fresh:
  "UpdateClients_instances NC old insts rest nh errs st = (nh', errs', st') \<Longrightarrow>
   \<forall>a\<in>snd ` set old. a < length st \<Longrightarrow>
   inst \<in> fst ` set rest \<Longrightarrow> map_of old inst = None \<Longrightarrow> NC inst = Inr gc \<Longrightarrow>
   \<exists>a. map_of nh' inst = Some a \<and> length st \<le> a \<and> a < length st'
     \<and> st' ! a = \<lparr>instance_name = inst, projects = instance_projects insts inst,
                    authService = Authentication gc, accountService = Accounts gc,
                    changeService = Changes gc, projectService = Projects gc\<rparr>"
proof (induction rest arbitrary: nh errs st)
  case Nil
  then show ?case by simp
next
  case (Cons x rest)
  obtain i ps where x: "x = (i, ps)" by (cases x)
  show ?case
  proof (cases "map_of old i")
    case (Some b)
    let ?st = "st[b := (st ! b)\<lparr>projects := instance_projects insts i\<rparr>]"
    from Some Cons.prems(4) have "i \<noteq> inst" by auto
    with Cons.prems(3) x have rest: "inst \<in> fst ` set rest" by auto
    from Cons.prems(1) x Some
    have run: "UpdateClients_instances NC old insts rest (AList.update i b nh) errs ?st
                 = (nh', errs', st')"
      by simp
    from Cons.prems(2) have bound: "\<forall>a\<in>snd ` set old. a < length ?st" by simp
    from Cons.IH [OF run bound rest Cons.prems(4,5)] show ?thesis by simp
  next
    case None
    show ?thesis
    proof (cases "NC i")
      case (Inl e)
      with Cons.prems(5) have "i \<noteq> inst" by auto
      with Cons.prems(3) x have rest: "inst \<in> fst ` set rest" by auto
      from Inl Cons.prems(1) x None
      have "UpdateClients_instances NC old insts rest nh (errs @ [e]) st = (nh', errs', st')"
        by simp
      from Cons.IH [OF this Cons.prems(2) rest Cons.prems(4,5)] show ?thesis .
    next
      case (Inr gc')
      let ?h = "\<lparr>instance_name = i, projects = instance_projects insts i,
                 authService = Authentication gc', accountService = Accounts gc',
                 changeService = Changes gc', projectService = Projects gc'\<rparr>"
      from Inr Cons.prems(1) x None
      have run: "UpdateClients_instances NC old insts rest (AList.update i (length st) nh) errs
           (st @ [?h]) = (nh', errs', st')"
        by simp
      from Cons.prems(2) have bound: "\<forall>a\<in>snd ` set old. a < length (st @ [?h])" by auto
      show ?thesis
      proof (cases "inst \<in> fst ` set rest")
        case True
        from Cons.IH [OF run bound True Cons.prems(4,5)] show ?thesis by auto
      next
        case False
        with Cons.prems(3) x have eq: "i = inst" by auto
        with Inr Cons.prems(5) have gc: "gc' = gc" by simp
        have "\<forall>j\<in>fst ` set rest. map_of old j \<noteq> Some (length st)"
        proof
          fix j assume "j \<in> fst ` set rest"
          show "map_of old j \<noteq> Some (length st)"
          proof
            assume "map_of old j = Some (length st)"
            then have "length st \<in> snd ` set old" by (force dest: map_of_SomeD)
            with Cons.prems(2) show False by auto
          qed
        qed
        from UC_untouched [OF run _ this] have at: "st' ! length st = ?h" by simp
        from UC_other [OF run False] eq have "map_of nh' inst = Some (length st)"
          by (simp add: update_conv')
        moreover from UC_length [OF run] have "length st < length st'" by simp
        ultimately show ?thesis using at eq gc by simp
      qed
    qed
  qed
qed

lemma UC_errs_mono:
  "UpdateClients_instances NC old insts rest nh errs st = (nh', errs', st') \<Longrightarrow>
   set errs \<subseteq> set errs'"
proof (induction rest arbitrary: nh errs st)
  case Nil
  then show ?case by simp
next
  case (Cons x rest)
  obtain i ps where x: "x = (i, ps)" by (cases x)
  from Cons.prems x show ?case
    by (auto split: option.splits sum.splits dest!: Cons.IH)
qed

lemma UC_failed:
  "UpdateClients_instances NC old insts rest nh errs st = (nh', errs', st') \<Longrightarrow>
   inst \<in> fst ` set rest \<Longrightarrow> map_of old inst = None \<Longrightarrow> NC inst = Inl e \<Longrightarrow>
   map_of nh' inst = map_of nh inst \<and> e \<in> set errs'"
proof (induction rest arbitrary: nh errs st)
  case Nil
  then show ?case by simp
next
  case (Cons x rest)
  obtain i ps where x: "x = (i, ps)" by (cases x)
  show ?case
  proof (cases "i = inst")
    case True
    with Cons.prems x
    have run: "UpdateClients_instances NC old insts rest nh (errs @ [e]) st = (nh', errs', st')"
      by simp
    show ?thesis
    proof (cases "inst \<in> fst ` set rest")
      case True
      from Cons.IH [OF run True Cons.prems(3,4)] show ?thesis .
    next
      case False
      from UC_other [OF run False] UC_errs_mono [OF run] show ?thesis by auto
    qed
  next
    case False
    with Cons.prems(2) x have rest: "inst \<in> fst ` set rest" by auto
    from Cons.prems(1) x False Cons.IH [OF _ rest Cons.prems(3,4)] show ?thesis
      by (auto split: option.splits sum.splits simp: update_conv')
  qed
qed

lemma UC_errs_empty:
  "UpdateClients_instances NC old insts rest nh errs st = (nh', errs', st') \<Longrightarrow>
   errs' = [] \<longleftrightarrow>
     errs = [] \<and> (\<forall>inst\<in>fst ` set rest. map_of old inst = None \<longrightarrow> (\<forall>e. NC inst \<noteq> Inl e))"
proof (induction rest arbitrary: nh errs st)
  case Nil
  then show ?case by simp
next
  case (Cons x rest)
  obtain i ps where x: "x = (i, ps)" by (cases x)
  show ?case
  proof (cases "map_of old i")
    case (Some b)
    with Cons.prems x Cons.IH [of "AList.update i b nh" errs] show ?thesis by auto
  next
    case None
    show ?thesis
    proof (cases "NC i")
      case (Inl e)
      with Cons.prems x None Cons.IH [of nh "errs @ [e]" st] show ?thesis by auto
    next
      case (Inr gc)
      with Cons.prems x None Cons.IH [of "AList.update i (length st) nh" errs] show ?thesis
        by auto
    qed
  qed
qed

text \<open>
  Claim C7. After \<^verbatim>\<open>UpdateClients\<close> with a desired instance/project map: a desired instance
  that was registered keeps its handler object (the same pointer), changed in its
  projects only; an instance that is not desired has no handler; a desired instance that
  was not registered and whose gateway can be constructed has a new handler object with
  the services of that gateway and the desired projects; one whose gateway cannot be
  constructed has no handler, and its error is in the aggregate error returned, which is
  no error exactly when no construction failed. So the kept and the newly constructed
  handlers are all retained when some construction fails.
\<close>

theorem UpdateClients_reconciles:
  assumes wf: "wf_Client c"
    and upd: "UpdateClients NewClient c instances = (c', err)"
  shows "(\<forall>inst a. inst \<in> fst ` set instances \<and> map_of (handlers c) inst = Some a \<longrightarrow>
            map_of (handlers c') inst = Some a
            \<and> store c' ! a = (store c ! a)\<lparr>projects := instance_projects instances inst\<rparr>)
       \<and> (\<forall>inst. inst \<notin> fst ` set instances \<longrightarrow> map_of (handlers c') inst = None)
       \<and> (\<forall>inst gc. inst \<in> fst ` set instances \<and> map_of (handlers c) inst = None
                     \<and> NewClient inst = Inr gc \<longrightarrow>
            (\<exists>a. map_of (handlers c') inst = Some a \<and> length (store c) \<le> a
               \<and> a < length (store c')
               \<and> store c' ! a =
                   \<lparr>instance_name = inst, projects = instance_projects instances inst,
                    authService = Authentication gc, accountService = Accounts gc,
                    changeService = Changes gc, projectService = Projects gc\<rparr>))
       \<and> (\<forall>inst e. inst \<in> fst ` set instances \<and> map_of (handlers c) inst = None
                    \<and> NewClient inst = Inl e \<longrightarrow>
            map_of (handlers c') inst = None
            \<and> (\<exists>errs. err = Some (Aggregate errs) \<and> e \<in> set errs))
       \<and> (err = None \<longleftrightarrow>
            (\<forall>inst\<in>fst ` set instances. map_of (handlers c) inst = None \<longrightarrow>
               (\<forall>e. NewClient inst \<noteq> Inl e)))"
proof -
  obtain nh' errs' st' where
    run: "UpdateClients_instances NewClient (handlers c) instances instances [] [] (store c)
            = (nh', errs', st')"
    by (cases "UpdateClients_instances NewClient (handlers c) instances instances [] [] (store c)")
  with upd have c': "handlers c' = nh'" "store c' = st'" and err: "err = NewAggregate errs'"
    by (auto simp: UpdateClients_def)
  from wf have inj: "distinct (map snd (handlers c))"
    and bound: "\<forall>a\<in>snd ` set (handlers c). a < length (store c)"
    by (simp_all add: wf_Client_def)
  have kept: "map_of (handlers c') inst = Some a
            \<and> store c' ! a = (store c ! a)\<lparr>projects := instance_projects instances inst\<rparr>"
    if "inst \<in> fst ` set instances" "map_of (handlers c) inst = Some a" for inst a
    using UC_preserved [OF inj run bound that] c' by simp
  have dropped: "map_of (handlers c') inst = None" if "inst \<notin> fst ` set instances" for inst
    using UC_other [OF run that] c' by simp
  have fresh: "\<exists>a. map_of (handlers c') inst = Some a \<and> length (store c) \<le> a
               \<and> a < length (store c')
               \<and> store c' ! a =
                   \<lparr>instance_name = inst, projects = instance_projects instances inst,
                    authService = Authentication gc, accountService = Accounts gc,
                    changeService = Changes gc, projectService = Projects gc\<rparr>"
    if "inst \<in> fst ` set instances" "map_of (handlers c) inst = None" "NewClient inst = Inr gc"
    for inst gc
    using UC_fresh [OF run bound that] c' by simp
  have failed: "map_of (handlers c') inst = None
            \<and> (\<exists>errs. err = Some (Aggregate errs) \<and> e \<in> set errs)"
    if "inst \<in> fst ` set instances" "map_of (handlers c) inst = None" "NewClient inst = Inl e"
    for inst e
  proof -
    from UC_failed [OF run that] have n: "map_of nh' inst = None" and e: "e \<in> set errs'"
      by simp_all
    from e have "errs' \<noteq> []" by auto
    with err have "err = Some (Aggregate errs')" by (simp add: NewAggregate_def)
    with n e c' show ?thesis by simp
  qed
  have none: "err = None \<longleftrightarrow>
            (\<forall>inst\<in>fst ` set instances. map_of (handlers c) inst = None \<longrightarrow>
               (\<forall>e. NewClient inst \<noteq> Inl e))"
    using UC_errs_empty [OF run] err by (simp add: NewAggregate_def)
  show ?thesis
  proof (intro conjI allI impI)
    fix inst a
    assume "inst \<in> fst ` set instances \<and> map_of (handlers c) inst = Some a"
    then show "map_of (handlers c') inst = Some a"
      and "store c' ! a = (store c ! a)\<lparr>projects := instance_projects instances inst\<rparr>"
      using kept [of inst a] by simp_all
  next
    fix inst
    assume "inst \<notin> fst ` set instances"
    then show "map_of (handlers c') inst = None" by (rule dropped)
  next
    fix inst gc
    assume "inst \<in> fst ` set instances \<and> map_of (handlers c) inst = None
                     \<and> NewClient inst = Inr gc"
    then show "\<exists>a. map_of (handlers c') inst = Some a \<and> length (store c) \<le> a
               \<and> a < length (store c')
               \<and> store c' ! a =
                   \<lparr>instance_name = inst, projects = instance_projects instances inst,
                    authService = Authentication gc, accountService = Accounts gc,
                    changeService = Changes gc, projectService = Projects gc\<rparr>"
      using fresh [of inst gc] by simp
  next
    fix inst e
    assume "inst \<in> fst ` set instances \<and> map_of (handlers c) inst = None
                    \<and> NewClient inst = Inl e"
    then show "map_of (handlers c') inst = None"
      and "\<exists>errs. err = Some (Aggregate errs) \<and> e \<in> set errs"
      using failed [of inst e] by simp_all
  next
    show "err = None \<longleftrightarrow>
            (\<forall>inst\<in>fst ` set instances. map_of (handlers c) inst = None \<longrightarrow>
               (\<forall>e. NewClient inst \<noteq> Inl e))"
      by (rule none)
  qed
qed


theorem UpdateClients_reconciles_witness:
  "wf_Client example_registry
   \<and> map_of (handlers (fst (UpdateClients example_NewClient example_registry example_instances)))
        ''host'' = Some 0
   \<and> store (fst (UpdateClients example_NewClient example_registry example_instances)) ! 0
        = example_handler\<lparr>projects := [(''q'', None)]\<rparr>
   \<and> map_of (handlers (fst (UpdateClients example_NewClient example_registry example_instances)))
        ''retired'' = None
   \<and> map_of (handlers (fst (UpdateClients example_NewClient example_registry example_instances)))
        ''bad'' = None
   \<and> snd (UpdateClients example_NewClient example_registry example_instances)
        = Some (Aggregate [GatewayError ''parse''])"
proof -
  let ?U = "UpdateClients example_NewClient example_registry example_instances"
  have wf: "wf_Client example_registry"
    by (simp add: wf_Client_def example_registry_def)
  have upd: "?U = (fst ?U, snd ?U)" by simp
  note facts = UpdateClients_reconciles [OF wf upd]
  have host: "''host'' \<in> fst ` set example_instances
              \<and> map_of (handlers example_registry) ''host'' = Some 0"
    and retired: "''retired'' \<notin> fst ` set example_instances"
    and bad: "''bad'' \<in> fst ` set example_instances
              \<and> map_of (handlers example_registry) ''bad'' = None
              \<and> example_NewClient ''bad'' = Inl (GatewayError ''parse'')"
    by (simp_all add: example_instances_def example_registry_def example_NewClient_def)
  from facts host have kept: "map_of (handlers (fst ?U)) ''host'' = Some 0
      \<and> store (fst ?U) ! 0
          = (store example_registry ! 0)\<lparr>projects := instance_projects example_instances ''host''\<rparr>"
    by blast
  from facts retired have dropped: "map_of (handlers (fst ?U)) ''retired'' = None" by blast
  from facts bad have failed: "map_of (handlers (fst ?U)) ''bad'' = None" by blast
  have err: "snd ?U = Some (Aggregate [GatewayError ''parse''])"
    by (simp add: UpdateClients_def example_instances_def example_registry_def
        example_NewClient_def NewAggregate_def)
  from kept have "store (fst ?U) ! 0 = example_handler\<lparr>projects := [(''q'', None)]\<rparr>"
    by (simp add: example_registry_def instance_projects_def example_instances_def)
  with wf kept dropped failed err show ?thesis by simp
qed



text \<open>
  The condition on the pointers holds again after \<^verbatim>\<open>UpdateClients\<close>, so it holds all
  along for a client that starts with it.
\<close>

lemma distinct_snd_update:
  "distinct (map snd al) \<Longrightarrow> v \<notin> snd ` set al \<Longrightarrow> distinct (map snd (AList.update k v al))"
proof (induction al)
  case Nil
  then show ?case by simp
next
  case (Cons p ps)
  have sub: "snd ` set (AList.update k v ps) \<subseteq> insert v (snd ` set ps)"
    by (induction ps) auto
  from Cons show ?case
  proof (cases "fst p = k")
    case True
    with Cons.prems show ?thesis by auto
  next
    case False
    with Cons sub show ?thesis by auto
  qed
qed

lemma set_update_subset:
  "set (AList.update k v al) \<subseteq> insert (k, v) (set al)"
  by (induction al) auto

lemma UC_pointers:
  assumes inj: "distinct (map snd old)"
    and bound0: "\<forall>a\<in>snd ` set old. a < n"
  shows "UpdateClients_instances NC old insts rest nh errs st = (nh', errs', st') \<Longrightarrow>
   n \<le> length st \<Longrightarrow> distinct (map snd nh) \<Longrightarrow>
   \<forall>(j, b)\<in>set nh. map_of old j = Some b \<or> (map_of old j = None \<and> n \<le> b \<and> b < length st) \<Longrightarrow>
   distinct (map snd nh')
   \<and> (\<forall>(j, b)\<in>set nh'. map_of old j = Some b \<or> (map_of old j = None \<and> n \<le> b \<and> b < length st'))"
proof (induction rest arbitrary: nh errs st)
  case Nil
  then show ?case by simp
next
  case (Cons x rest)
  obtain i ps where x: "x = (i, ps)" by (cases x)
  show ?case
  proof (cases "map_of old i")
    case (Some b)
    let ?st = "st[b := (st ! b)\<lparr>projects := instance_projects insts i\<rparr>]"
    from Cons.prems(1) x Some
    have run: "UpdateClients_instances NC old insts rest (AList.update i b nh) errs ?st
                 = (nh', errs', st')"
      by simp
    from Some have "b \<in> snd ` set old" by (force dest: map_of_SomeD)
    with bound0 have bn: "b < n" by blast
    have d: "distinct (map snd (AList.update i b nh))"
    proof (cases "map_of nh i = Some b")
      case True
      then have "AList.update i b nh = nh" by (rule update_triv)
      with Cons.prems(3) show ?thesis by simp
    next
      case False
      have "b \<notin> snd ` set nh"
      proof
        assume "b \<in> snd ` set nh"
        then obtain j where j: "(j, b) \<in> set nh" by auto
        with Cons.prems(4) bn have "map_of old j = Some b" by auto
        with Some inj have ij: "j = i" by (auto dest: distinct_snd_inj)
        have "map_of nh i = Some b"
        proof (cases "map_of nh i")
          case None
          with j ij show ?thesis by (auto simp: map_of_eq_None_iff image_iff)
        next
          case (Some b')
          then have "(i, b') \<in> set nh" by (rule map_of_SomeD)
          with Cons.prems(4) \<open>map_of old i = Some b\<close> have "b' = b" by auto
          with Some show ?thesis by simp
        qed
        with False show False by simp
      qed
      with Cons.prems(3) show ?thesis by (rule distinct_snd_update)
    qed
    have e: "\<forall>(j, b')\<in>set (AList.update i b nh).
               map_of old j = Some b' \<or> (map_of old j = None \<and> n \<le> b' \<and> b' < length ?st)"
      using Cons.prems(4) Some set_update_subset [of i b nh] by auto
    from Cons.IH [OF run _ d e] Cons.prems(2) show ?thesis by simp
  next
    case None
    show ?thesis
    proof (cases "NC i")
      case (Inl err)
      with Cons.prems(1) x None
      have "UpdateClients_instances NC old insts rest nh (errs @ [err]) st = (nh', errs', st')"
        by simp
      from Cons.IH [OF this Cons.prems(2,3,4)] show ?thesis .
    next
      case (Inr gc)
      with Cons.prems(1) x None obtain h where
        run: "UpdateClients_instances NC old insts rest (AList.update i (length st) nh) errs
           (st @ [h]) = (nh', errs', st')"
        by simp
      have "length st \<notin> snd ` set nh"
      proof
        assume "length st \<in> snd ` set nh"
        then obtain j where j: "(j, length st) \<in> set nh" by auto
        with Cons.prems(4) consider "map_of old j = Some (length st)" | "length st < length st"
          by auto
        then show False
        proof cases
          case 1
          then have "length st \<in> snd ` set old" by (force dest: map_of_SomeD)
          with bound0 Cons.prems(2) show False by auto
        next
          case 2
          then show False by simp
        qed
      qed
      with Cons.prems(3) have d: "distinct (map snd (AList.update i (length st) nh))"
        by (rule distinct_snd_update)
      have e: "\<forall>(j, b')\<in>set (AList.update i (length st) nh).
               map_of old j = Some b'
               \<or> (map_of old j = None \<and> n \<le> b' \<and> b' < length (st @ [h]))"
        using Cons.prems(2,4) None set_update_subset [of i "length st" nh] by auto
      from Cons.IH [OF run _ d e] Cons.prems(2) show ?thesis by simp
    qed
  qed
qed

lemma UpdateClients_wf:
  assumes wf: "wf_Client c"
    and upd: "UpdateClients NewClient c instances = (c', err)"
  shows "wf_Client c'"
proof -
  obtain nh' errs' st' where
    run: "UpdateClients_instances NewClient (handlers c) instances instances [] [] (store c)
            = (nh', errs', st')"
    by (cases "UpdateClients_instances NewClient (handlers c) instances instances [] [] (store c)")
  with upd have c': "handlers c' = nh'" "store c' = st'"
    by (auto simp: UpdateClients_def)
  from wf have inj: "distinct (map snd (handlers c))"
    and bound: "\<forall>a\<in>snd ` set (handlers c). a < length (store c)"
    by (simp_all add: wf_Client_def)
  from UC_pointers [OF inj bound run] have d: "distinct (map snd nh')"
    and e: "\<forall>(j, b)\<in>set nh'. map_of (handlers c) j = Some b
              \<or> (map_of (handlers c) j = None \<and> length (store c) \<le> b \<and> b < length st')"
    by simp_all
  have "a < length st'" if "a \<in> snd ` set nh'" for a
  proof -
    from that obtain j where "(j, a) \<in> set nh'" by auto
    with e consider "map_of (handlers c) j = Some a" | "a < length st'" by auto
    then show ?thesis
    proof cases
      case 1
      then have "a \<in> snd ` set (handlers c)" by (force dest: map_of_SomeD)
      with bound UC_length [OF run] show ?thesis by auto
    next
      case 2
      then show ?thesis .
    qed
  qed
  with d c' show ?thesis by (simp add: wf_Client_def)
qed


end
